theory Spec2Isabelle
  imports Main "HOL-Library.Word" "HOL-Library.Multiset"
begin

unbundle bit_operations_syntax

section \<open>Bytes, slices and the coding helpers\<close>

type_synonym byte = "8 word"
type_synonym uint32 = "32 word"
type_synonym uint64 = "64 word"

text \<open>A \<^verbatim>\<open>Slice\<close> is a view of bytes; a \<^verbatim>\<open>const char*\<close> into an arena
  allocation is modelled by the bytes from the pointer to the end of that allocation.\<close>

type_synonym Slice = "byte list"
type_synonym SequenceNumber = uint64

text \<open>Modelled from the spec: \<^verbatim>\<open>EncodeVarint32\<close> of util/coding is not part of the
  sources at hand. The spec calls the sizes "variable-length encoded unsigned integers";
  the model is the usual base-128 format (seven value bits per byte, low group first,
  the top bit of a byte set when another byte follows) of an unsigned 32-bit value.\<close>

definition EncodeVarint32 :: "uint32 \<Rightarrow> byte list" where
  "EncodeVarint32 v =
    (if v < 2 ^ 7 then [ucast v]
     else if v < 2 ^ 14 then [ucast (v OR 128), ucast (drop_bit 7 v)]
     else if v < 2 ^ 21 then
       [ucast (v OR 128), ucast (drop_bit 7 v OR 128), ucast (drop_bit 14 v)]
     else if v < 2 ^ 28 then
       [ucast (v OR 128), ucast (drop_bit 7 v OR 128), ucast (drop_bit 14 v OR 128),
        ucast (drop_bit 21 v)]
     else
       [ucast (v OR 128), ucast (drop_bit 7 v OR 128), ucast (drop_bit 14 v OR 128),
        ucast (drop_bit 21 v OR 128), ucast (drop_bit 28 v)])"

text \<open>Modelled from the spec: \<^verbatim>\<open>GetVarint32Ptr(p, limit, &value)\<close> of util/coding
  is not part of the sources at hand. It reads at most \<open>limit\<close> bytes (the callers pass
  \<^verbatim>\<open>p + 5\<close>) and at most five groups; \<open>None\<close> stands for the null pointer it returns
  on a malformed prefix, and for a read past the end of the buffer.\<close>

fun GetVarint32PtrFallback ::
  "nat \<Rightarrow> uint32 \<Rightarrow> byte list \<Rightarrow> nat \<Rightarrow> (uint32 \<times> byte list) option" where
  "GetVarint32PtrFallback shift result [] limit = None"
| "GetVarint32PtrFallback shift result (b # p) limit =
    (if shift \<le> 28 \<and> 0 < limit then
       (if b AND 128 \<noteq> 0
        then GetVarint32PtrFallback (shift + 7)
               (result OR push_bit shift (ucast (b AND 127))) p (limit - 1)
        else Some (result OR push_bit shift (ucast b), p))
     else None)"

definition GetVarint32Ptr :: "byte list \<Rightarrow> nat \<Rightarrow> (uint32 \<times> byte list) option" where
  "GetVarint32Ptr p limit =
    (case p of
       [] \<Rightarrow> None
     | b # p' \<Rightarrow>
         if 0 < limit \<and> b AND 128 = 0 then Some (ucast b, p')
         else GetVarint32PtrFallback 0 0 p limit)"

text \<open>Modelled from the spec: \<^verbatim>\<open>VarintLength\<close> of util/coding is not part of the
  sources at hand; it is the number of bytes of the base-128 encoding of a 64-bit
  value.\<close>

function VarintLength :: "nat \<Rightarrow> nat" where
  "VarintLength v = (if 128 \<le> v then 1 + VarintLength (v div 128) else 1)"
  by pat_completeness auto
termination
  by (relation "measure id") auto

text \<open>Modelled from the spec: \<^verbatim>\<open>EncodeFixed64\<close> and \<^verbatim>\<open>DecodeFixed64\<close> of
  util/coding are not part of the sources at hand; the spec fixes the tag as "8 bytes,
  fixed-width, little-endian". Decoding fewer than eight bytes is a read past the
  buffer, \<open>None\<close>.\<close>

definition EncodeFixed64 :: "uint64 \<Rightarrow> byte list" where
  "EncodeFixed64 v =
     [ucast v, ucast (drop_bit 8 v), ucast (drop_bit 16 v), ucast (drop_bit 24 v),
      ucast (drop_bit 32 v), ucast (drop_bit 40 v), ucast (drop_bit 48 v),
      ucast (drop_bit 56 v)]"

fun DecodeFixed64 :: "byte list \<Rightarrow> uint64 option" where
  "DecodeFixed64 (b0 # b1 # b2 # b3 # b4 # b5 # b6 # b7 # p) =
     Some (ucast b0 OR push_bit 8 (ucast b1) OR push_bit 16 (ucast b2)
       OR push_bit 24 (ucast b3) OR push_bit 32 (ucast b4) OR push_bit 40 (ucast b5)
       OR push_bit 48 (ucast b6) OR push_bit 56 (ucast b7))"
| "DecodeFixed64 _ = None"


section \<open>Keys, tags and comparators (db/dbformat)\<close>

text \<open>Modelled from the spec: the enum \<^verbatim>\<open>ValueType\<close> of db/dbformat is not part of
  the sources at hand. The operation tag is one of Deletion and Value and occupies the
  low eight bits of the 64-bit tag; Deletion is 0 and Value is 1.\<close>

datatype ValueType = kTypeDeletion | kTypeValue

fun ValueType_code :: "ValueType \<Rightarrow> uint64" where
  "ValueType_code kTypeDeletion = 0"
| "ValueType_code kTypeValue = 1"

text \<open>Modelled from the spec: the tag byte of a seek target is the largest operation
  tag, so that the target sorts at or before every entry of the same sequence number.\<close>

definition kValueTypeForSeek :: ValueType where
  "kValueTypeForSeek = kTypeValue"

text \<open>A user comparator is its three-way \<^verbatim>\<open>Compare\<close>: negative, zero or positive.\<close>

type_synonym Comparator = "Slice \<Rightarrow> Slice \<Rightarrow> int"

datatype InternalKeyComparator = InternalKeyComparator (user_comparator: Comparator)

text \<open>Modelled from the spec: \<^verbatim>\<open>ExtractUserKey\<close> and
  \<^verbatim>\<open>InternalKeyComparator::Compare\<close> of db/dbformat are not part of the sources at
  hand. Internal keys order by user key ascending under the user comparator and, when
  the user keys tie, by the 64-bit tag descending. An internal key shorter than its
  eight tag bytes has no user key (\<open>None\<close>).\<close>

definition ExtractUserKey :: "Slice \<Rightarrow> Slice option" where
  "ExtractUserKey internal_key =
     (if 8 \<le> length internal_key
      then Some (take (length internal_key - 8) internal_key) else None)"

definition Compare :: "InternalKeyComparator \<Rightarrow> Slice \<Rightarrow> Slice \<Rightarrow> int option" where
  "Compare c akey bkey =
     (case ExtractUserKey akey of
        None \<Rightarrow> None
      | Some ua \<Rightarrow>
         (case ExtractUserKey bkey of
            None \<Rightarrow> None
          | Some ub \<Rightarrow>
              let r = user_comparator c ua ub in
              if r = 0 then
                (case DecodeFixed64 (drop (length akey - 8) akey) of
                   None \<Rightarrow> None
                 | Some anum \<Rightarrow>
                    (case DecodeFixed64 (drop (length bkey - 8) bkey) of
                       None \<Rightarrow> None
                     | Some bnum \<Rightarrow>
                         Some (if anum > bnum then - 1 else if anum < bnum then 1 else r)))
              else Some r))"

text \<open>Modelled from the spec: \<^verbatim>\<open>LookupKey\<close> of db/dbformat is not part of the
  sources at hand. It holds a user key and, for the seek, the length-prefixed internal
  key whose tag is \<open>(sequence << 8) | kValueTypeForSeek\<close>.\<close>

record LookupKey =
  memtable_key :: Slice
  user_key :: Slice

definition NewLookupKey :: "Slice \<Rightarrow> SequenceNumber \<Rightarrow> LookupKey" where
  "NewLookupKey ukey s =
     \<lparr> memtable_key =
         EncodeVarint32 (of_nat (length ukey + 8)) @ ukey
           @ EncodeFixed64 (push_bit 8 s OR ValueType_code kValueTypeForSeek),
       user_key = ukey \<rparr>"

text \<open>Modelled from the spec: \<^verbatim>\<open>Status\<close> of leveldb/status is not part of the sources
  at hand; \<^verbatim>\<open>Get\<close> uses the OK status it is handed and \<^verbatim>\<open>Status::NotFound\<close>.\<close>

datatype Status = OK | NotFound

section \<open>The ordered index (db/skiplist) and the arena (util/arena)\<close>

text \<open>Modelled from the spec: \<^verbatim>\<open>SkipList<Key, Comparator>\<close> is not part of the sources
  at hand. The ordered index keeps its keys in comparator order, takes keys that compare
  equal, and is read through a positional cursor: the index is the list of its keys in
  order and a cursor is the position of its node, \<open>None\<close> for the null node. The
  comparator may fail on a key it cannot decode, and then so does the operation.\<close>

type_synonym SkipList_Iterator = "nat option"

fun SkipList_Insert :: "('k \<Rightarrow> 'k \<Rightarrow> int option) \<Rightarrow> 'k \<Rightarrow> 'k list \<Rightarrow> 'k list option" where
  "SkipList_Insert cmp k [] = Some [k]"
| "SkipList_Insert cmp k (x # xs) =
     (case cmp x k of
        None \<Rightarrow> None
      | Some r \<Rightarrow>
          if r < 0 then map_option ((#) x) (SkipList_Insert cmp k xs)
          else Some (k # x # xs))"

fun FindGreaterOrEqual ::
  "('k \<Rightarrow> 'k \<Rightarrow> int option) \<Rightarrow> 'k \<Rightarrow> 'k list \<Rightarrow> SkipList_Iterator option" where
  "FindGreaterOrEqual cmp k [] = Some None"
| "FindGreaterOrEqual cmp k (x # xs) =
     (case cmp x k of
        None \<Rightarrow> None
      | Some r \<Rightarrow>
          if r < 0 then map_option (map_option Suc) (FindGreaterOrEqual cmp k xs)
          else Some (Some 0))"

definition SkipList_Valid :: "SkipList_Iterator \<Rightarrow> bool" where
  "SkipList_Valid node = (node \<noteq> None)"

definition SkipList_Seek ::
  "('k \<Rightarrow> 'k \<Rightarrow> int option) \<Rightarrow> 'k list \<Rightarrow> 'k \<Rightarrow> SkipList_Iterator option" where
  "SkipList_Seek cmp list target = FindGreaterOrEqual cmp target list"

definition SkipList_SeekToFirst :: "'k list \<Rightarrow> SkipList_Iterator" where
  "SkipList_SeekToFirst list = (if list = [] then None else Some 0)"

definition SkipList_SeekToLast :: "'k list \<Rightarrow> SkipList_Iterator" where
  "SkipList_SeekToLast list = (if list = [] then None else Some (length list - 1))"

text \<open>\<^verbatim>\<open>Next\<close> and \<^verbatim>\<open>Prev\<close> require a valid cursor; on the null node they stay
  there.\<close>

definition SkipList_Next :: "'k list \<Rightarrow> SkipList_Iterator \<Rightarrow> SkipList_Iterator" where
  "SkipList_Next list node =
     (case node of
        None \<Rightarrow> None
      | Some i \<Rightarrow> if Suc i < length list then Some (Suc i) else None)"

definition SkipList_Prev :: "'k list \<Rightarrow> SkipList_Iterator \<Rightarrow> SkipList_Iterator" where
  "SkipList_Prev list node =
     (case node of
        None \<Rightarrow> None
      | Some i \<Rightarrow> if i = 0 then None else Some (i - 1))"

definition SkipList_key :: "'k list \<Rightarrow> SkipList_Iterator \<Rightarrow> 'k option" where
  "SkipList_key list node =
     (case node of
        None \<Rightarrow> None
      | Some i \<Rightarrow> if i < length list then Some (list ! i) else None)"

text \<open>Modelled from the spec: \<^verbatim>\<open>Arena\<close> is not part of the sources at hand. It is
  specified through "allocate N bytes" and "a running total of bytes allocated".\<close>

record Arena =
  memory_usage :: nat

definition Arena_Allocate :: "nat \<Rightarrow> Arena \<Rightarrow> Arena" where
  "Arena_Allocate bytes a = a\<lparr>memory_usage := memory_usage a + bytes\<rparr>"

definition Arena_MemoryUsage :: "Arena \<Rightarrow> nat" where
  "Arena_MemoryUsage a = memory_usage a"

section \<open>MemTable (db/memtable)\<close>

text \<open>\<^verbatim>\<open>GetLengthPrefixedSlice(data)\<close>: the slice of \<open>len\<close> bytes after the varint32
  \<open>len\<close>. The second component is the buffer from \<^verbatim>\<open>data() + size()\<close> of that slice on,
  which \<^verbatim>\<open>MemTableIterator::value\<close> and \<^verbatim>\<open>Get\<close> read next. The source does not check
  the result of \<^verbatim>\<open>GetVarint32Ptr\<close> ("we assume p is not corrupted"); a null result and
  a slice that runs past the buffer are \<open>None\<close>.\<close>

definition GetLengthPrefixedSlice :: "byte list \<Rightarrow> (Slice \<times> byte list) option" where
  "GetLengthPrefixedSlice data =
     (case GetVarint32Ptr data 5 of
        None \<Rightarrow> None
      | Some (len, p) \<Rightarrow>
          if unat len \<le> length p then Some (take (unat len) p, drop (unat len) p)
          else None)"

text \<open>The members \<^verbatim>\<open>comparator_\<close>, \<^verbatim>\<open>refs_\<close>, \<^verbatim>\<open>arena_\<close> and \<^verbatim>\<open>table_\<close> of the
  class. The table holds the pointers handed to the ordered index, each as the bytes of
  its allocation, in index order.\<close>

record MemTable =
  comparator :: InternalKeyComparator
  refs :: int
  arena :: Arena
  table :: "byte list list"

definition NewMemTable :: "InternalKeyComparator \<Rightarrow> MemTable" where
  "NewMemTable cmp =
     \<lparr> comparator = cmp, refs = 0, arena = \<lparr> memory_usage = 0 \<rparr>, table = [] \<rparr>"

definition ApproximateMemoryUsage :: "MemTable \<Rightarrow> nat" where
  "ApproximateMemoryUsage m = Arena_MemoryUsage (arena m)"

text \<open>\<^verbatim>\<open>MemTable::KeyComparator::operator()\<close>: compares two entries by their
  length-prefixed internal keys.\<close>

definition KeyComparator :: "InternalKeyComparator \<Rightarrow> byte list \<Rightarrow> byte list \<Rightarrow> int option" where
  "KeyComparator cmp aptr bptr =
     (case GetLengthPrefixedSlice aptr of
        None \<Rightarrow> None
      | Some (a, _) \<Rightarrow>
         (case GetLengthPrefixedSlice bptr of
            None \<Rightarrow> None
          | Some (b, _) \<Rightarrow> Compare cmp a b))"

text \<open>\<^verbatim>\<open>EncodeKey(scratch, target)\<close>: the target behind its varint32 length;
  \<^verbatim>\<open>PutVarint32\<close> takes the size as a 32-bit value.\<close>

definition EncodeKey :: "Slice \<Rightarrow> byte list" where
  "EncodeKey target = EncodeVarint32 (of_nat (length target)) @ target"


text \<open>\<^verbatim>\<open>MemTableIterator\<close> wraps the cursor of the table's ordered index.\<close>

definition MemTableIterator_Valid :: "SkipList_Iterator \<Rightarrow> bool" where
  "MemTableIterator_Valid iter = SkipList_Valid iter"

definition MemTableIterator_Seek :: "MemTable \<Rightarrow> Slice \<Rightarrow> SkipList_Iterator option" where
  "MemTableIterator_Seek m k =
     SkipList_Seek (KeyComparator (comparator m)) (table m) (EncodeKey k)"

definition MemTableIterator_SeekToFirst :: "MemTable \<Rightarrow> SkipList_Iterator" where
  "MemTableIterator_SeekToFirst m = SkipList_SeekToFirst (table m)"

definition MemTableIterator_SeekToLast :: "MemTable \<Rightarrow> SkipList_Iterator" where
  "MemTableIterator_SeekToLast m = SkipList_SeekToLast (table m)"

definition MemTableIterator_Next :: "MemTable \<Rightarrow> SkipList_Iterator \<Rightarrow> SkipList_Iterator" where
  "MemTableIterator_Next m iter = SkipList_Next (table m) iter"

definition MemTableIterator_Prev :: "MemTable \<Rightarrow> SkipList_Iterator \<Rightarrow> SkipList_Iterator" where
  "MemTableIterator_Prev m iter = SkipList_Prev (table m) iter"

definition MemTableIterator_key :: "MemTable \<Rightarrow> SkipList_Iterator \<Rightarrow> Slice option" where
  "MemTableIterator_key m iter =
     (case SkipList_key (table m) iter of
        None \<Rightarrow> None
      | Some entry \<Rightarrow> map_option fst (GetLengthPrefixedSlice entry))"

definition MemTableIterator_value :: "MemTable \<Rightarrow> SkipList_Iterator \<Rightarrow> Slice option" where
  "MemTableIterator_value m iter =
     (case SkipList_key (table m) iter of
        None \<Rightarrow> None
      | Some entry \<Rightarrow>
         (case GetLengthPrefixedSlice entry of
            None \<Rightarrow> None
          | Some (key_slice, after_key) \<Rightarrow> map_option fst (GetLengthPrefixedSlice after_key)))"

text \<open>\<^verbatim>\<open>MemTable::Add\<close>. \<open>Add_encoded_len\<close> is the size it allocates and \<open>Add_buf\<close>
  the bytes it writes through \<open>p\<close>; the sizes are \<^verbatim>\<open>size_t\<close> and become 32-bit values at
  \<^verbatim>\<open>EncodeVarint32\<close>. The final \<^verbatim>\<open>assert\<close> aborts (\<open>None\<close>) when the bytes written do
  not fill the allocation.\<close>

definition Add_encoded_len :: "Slice \<Rightarrow> Slice \<Rightarrow> nat" where
  "Add_encoded_len key val =
     (let key_size = length key;
          val_size = length val;
          internal_key_size = key_size + 8
      in VarintLength internal_key_size + internal_key_size + VarintLength val_size + val_size)"

definition Add_buf :: "SequenceNumber \<Rightarrow> ValueType \<Rightarrow> Slice \<Rightarrow> Slice \<Rightarrow> byte list" where
  "Add_buf s type key val =
     (let key_size = length key;
          val_size = length val;
          internal_key_size = key_size + 8
      in EncodeVarint32 (of_nat internal_key_size) @ key
           @ EncodeFixed64 (push_bit 8 s OR ValueType_code type)
           @ EncodeVarint32 (of_nat val_size) @ val)"

definition Add :: "SequenceNumber \<Rightarrow> ValueType \<Rightarrow> Slice \<Rightarrow> Slice \<Rightarrow> MemTable \<Rightarrow> MemTable option" where
  "Add s type key val m =
     (let encoded_len = Add_encoded_len key val;
          arena' = Arena_Allocate encoded_len (arena m);
          buf = Add_buf s type key val
      in if length buf = encoded_len then
           (case SkipList_Insert (KeyComparator (comparator m)) buf (table m) of
              None \<Rightarrow> None
            | Some table' \<Rightarrow> Some (m\<lparr>arena := arena', table := table'\<rparr>))
         else None)"

text \<open>\<^verbatim>\<open>MemTable::Get\<close>, with the out-parameters \<^verbatim>\<open>*value\<close> and \<^verbatim>\<open>*s\<close> passed in
  and returned beside the result. A key length below eight and a read past the entry
  are \<open>None\<close>. The \<^verbatim>\<open>switch\<close> has no default: any other tag byte falls through to
  \<^verbatim>\<open>return false\<close>.\<close>

definition Get :: "LookupKey \<Rightarrow> Slice \<Rightarrow> Status \<Rightarrow> MemTable \<Rightarrow> (bool \<times> Slice \<times> Status) option" where
  "Get key val s m =
     (let memkey = memtable_key key in
      case SkipList_Seek (KeyComparator (comparator m)) (table m) memkey of
        None \<Rightarrow> None
      | Some iter \<Rightarrow>
          if SkipList_Valid iter then
            (case SkipList_key (table m) iter of
               None \<Rightarrow> None
             | Some entry \<Rightarrow>
                (case GetVarint32Ptr entry 5 of
                   None \<Rightarrow> None
                 | Some (key_length, key_ptr) \<Rightarrow>
                     if unat key_length < 8 \<or> length key_ptr < unat key_length then None
                     else if user_comparator (comparator m)
                               (take (unat key_length - 8) key_ptr) (user_key key) = 0 then
                       (case DecodeFixed64 (drop (unat key_length - 8) key_ptr) of
                          None \<Rightarrow> None
                        | Some tag \<Rightarrow>
                            if tag AND 0xff = ValueType_code kTypeValue then
                              (case GetLengthPrefixedSlice (drop (unat key_length) key_ptr) of
                                 None \<Rightarrow> None
                               | Some (v, _) \<Rightarrow> Some (True, v, s))
                            else if tag AND 0xff = ValueType_code kTypeDeletion then
                              Some (True, val, NotFound)
                            else Some (False, val, s))
                     else Some (False, val, s)))
          else Some (False, val, s))"

text \<open>A sequence of \<^verbatim>\<open>Add\<close> calls, each given as (sequence, type, key, value).\<close>

type_synonym AddCall = "SequenceNumber \<times> ValueType \<times> Slice \<times> Slice"

fun AddAll :: "AddCall list \<Rightarrow> MemTable \<Rightarrow> MemTable option" where
  "AddAll [] m = Some m"
| "AddAll ((s, type, key, val) # calls) m =
     (case Add s type key val m of
        None \<Rightarrow> None
      | Some m' \<Rightarrow> AddAll calls m')"

text \<open>Reference counting. \<^verbatim>\<open>refs_\<close> is a C++ \<^verbatim>\<open>int\<close>: an increment or decrement out of
  its range is undefined and a failing \<^verbatim>\<open>assert\<close> aborts, both \<open>None\<close>. \<^verbatim>\<open>Unref\<close>
  runs \<^verbatim>\<open>delete this\<close>, and with it the destructor's \<^verbatim>\<open>assert(refs_ == 0)\<close>, when the
  count is no longer positive.\<close>

datatype Lifetime = Live MemTable | Destroyed

definition Ref :: "MemTable \<Rightarrow> MemTable option" where
  "Ref m = (if refs m < 2147483647 then Some (m\<lparr>refs := refs m + 1\<rparr>) else None)"

definition DeleteMemTable :: "MemTable \<Rightarrow> Lifetime option" where
  "DeleteMemTable m = (if refs m = 0 then Some Destroyed else None)"

definition Unref :: "MemTable \<Rightarrow> Lifetime option" where
  "Unref m =
     (if - 2147483648 < refs m then
        (let m' = m\<lparr>refs := refs m - 1\<rparr> in
         if refs m' \<ge> 0 then
           (if refs m' \<le> 0 then DeleteMemTable m' else Some (Live m'))
         else None)
      else None)"

text \<open>A sequence of \<^verbatim>\<open>Ref\<close> and \<^verbatim>\<open>Unref\<close> calls on a table; a call on a destroyed
  table is a use after free, \<open>None\<close>.\<close>

datatype RefCall = CallRef | CallUnref

fun RunRefCalls :: "RefCall list \<Rightarrow> Lifetime \<Rightarrow> Lifetime option" where
  "RunRefCalls [] l = Some l"
| "RunRefCalls (c # cs) Destroyed = None"
| "RunRefCalls (CallRef # cs) (Live m) =
     (case Ref m of None \<Rightarrow> None | Some m' \<Rightarrow> RunRefCalls cs (Live m'))"
| "RunRefCalls (CallUnref # cs) (Live m) =
     (case Unref m of None \<Rightarrow> None | Some l \<Rightarrow> RunRefCalls cs l)"

text \<open>Full traversals: \<^verbatim>\<open>for (; it->Valid(); it->Next())\<close> and
  \<^verbatim>\<open>for (; it->Valid(); it->Prev())\<close>, collecting \<^verbatim>\<open>key()\<close> and \<^verbatim>\<open>value()\<close> at each
  position.\<close>

function ForwardScan :: "MemTable \<Rightarrow> SkipList_Iterator \<Rightarrow> (Slice option \<times> Slice option) list" where
  "ForwardScan m iter =
     (if MemTableIterator_Valid iter
      then (MemTableIterator_key m iter, MemTableIterator_value m iter)
             # ForwardScan m (MemTableIterator_Next m iter)
      else [])"
  by pat_completeness auto
termination
  by (relation "measure (\<lambda>(m, iter). case iter of None \<Rightarrow> 0 | Some i \<Rightarrow> Suc (length (table m) - i))")
    (auto simp add: MemTableIterator_Valid_def SkipList_Valid_def MemTableIterator_Next_def
       SkipList_Next_def split: option.splits)

function BackwardScan :: "MemTable \<Rightarrow> SkipList_Iterator \<Rightarrow> (Slice option \<times> Slice option) list" where
  "BackwardScan m iter =
     (if MemTableIterator_Valid iter
      then (MemTableIterator_key m iter, MemTableIterator_value m iter)
             # BackwardScan m (MemTableIterator_Prev m iter)
      else [])"
  by pat_completeness auto
termination
  by (relation "measure (\<lambda>(m, iter). case iter of None \<Rightarrow> 0 | Some i \<Rightarrow> Suc i)")
    (auto simp add: MemTableIterator_Valid_def SkipList_Valid_def MemTableIterator_Prev_def
       SkipList_Prev_def split: option.splits)

text \<open>Modelled from the spec: the user comparator is supplied by the caller and is not
  part of the sources at hand; its contract is a total order through a pure three-way
  \<open>compare\<close>. \<open>BytewiseCompare\<close>, the order of the bytes as unsigned values, is one such
  comparator.\<close>

definition total_order_comparator :: "Comparator \<Rightarrow> bool" where
  "total_order_comparator c =
     ((\<forall>a b. (c a b < 0) = (0 < c b a)) \<and>
      (\<forall>a b d. c a b \<le> 0 \<and> c b d \<le> 0 \<longrightarrow> c a d \<le> 0))"

fun BytewiseCompare :: Comparator where
  "BytewiseCompare [] [] = 0"
| "BytewiseCompare [] (y # ys) = - 1"
| "BytewiseCompare (x # xs) [] = 1"
| "BytewiseCompare (x # xs) (y # ys) =
     (if x < y then - 1 else if y < x then 1 else BytewiseCompare xs ys)"

section \<open>Entries as the arguments of Add\<close>

text \<open>The entry and the internal key that an \<^verbatim>\<open>Add\<close> call writes, the sizes for which
  the 32-bit length prefixes and the 56 bits of the sequence number hold its arguments,
  and the order of two calls by user key ascending and then by tag descending.\<close>

definition InternalKeyOf :: "AddCall \<Rightarrow> Slice" where
  "InternalKeyOf e =
     (case e of (s, type, key, val) \<Rightarrow>
        key @ EncodeFixed64 (push_bit 8 s OR ValueType_code type))"

definition EntryBuf :: "AddCall \<Rightarrow> byte list" where
  "EntryBuf e = (case e of (s, type, key, val) \<Rightarrow> Add_buf s type key val)"

definition fits_call :: "AddCall \<Rightarrow> bool" where
  "fits_call e =
     (case e of (s, type, key, val) \<Rightarrow>
        length key + 8 < 2 ^ 32 \<and> length val < 2 ^ 32 \<and> s < 2 ^ 56)"

definition EntryCompare :: "Comparator \<Rightarrow> AddCall \<Rightarrow> AddCall \<Rightarrow> int" where
  "EntryCompare ucmp a b =
     (case a of (sa, ta, ka, va) \<Rightarrow>
      case b of (sb, tb, kb, vb) \<Rightarrow>
        let r = ucmp ka kb;
            anum = push_bit 8 sa OR ValueType_code ta;
            bnum = push_bit 8 sb OR ValueType_code tb
        in if r = 0 then (if anum > bnum then - 1 else if anum < bnum then 1 else r) else r)"

text \<open>An entry is at or after the seek target of a lookup of user key \<open>ukey\<close> at sequence
  \<open>sq\<close> when its user key is greater, or equal with a sequence number of at most \<open>sq\<close>.\<close>

definition at_or_after :: "Comparator \<Rightarrow> Slice \<Rightarrow> SequenceNumber \<Rightarrow> AddCall \<Rightarrow> bool" where
  "at_or_after ucmp ukey sq e =
     (case e of (s, type, key, val) \<Rightarrow>
        0 < ucmp key ukey \<or> (ucmp key ukey = 0 \<and> s \<le> sq))"

text \<open>The seek target as the spec words it for the table iterator (4.5): the user key
  with "a zero-sequence/zero-tag lower bound", an all-zero tag.\<close>

definition spec_seek_target :: "Slice \<Rightarrow> Slice" where
  "spec_seek_target ukey = ukey @ EncodeFixed64 0"

text \<open>The table after \<^verbatim>\<open>Add(1, kTypeValue, "ab", "x")\<close> and
  \<^verbatim>\<open>Add(2, kTypeValue, "abcdefghi", "y")\<close> under the bytewise comparator.\<close>

definition seek_example :: MemTable where
  "seek_example =
     \<lparr> comparator = InternalKeyComparator BytewiseCompare, refs = 0,
       arena = \<lparr> memory_usage = 33 \<rparr>,
       table = [[10, 97, 98, 1, 1, 0, 0, 0, 0, 0, 0, 1, 120],
                [17, 97, 98, 99, 100, 101, 102, 103, 104, 105, 1, 2, 0, 0, 0, 0, 0, 0, 1, 121]] \<rparr>"

text \<open>The entries of a table after one more \<^verbatim>\<open>Add\<close>: the new entry goes before the
  first entry that is not smaller.\<close>

definition entries_insert :: "Comparator \<Rightarrow> AddCall \<Rightarrow> AddCall list \<Rightarrow> AddCall list" where
  "entries_insert ucmp e es =
     takeWhile (\<lambda>x. EntryCompare ucmp x e < 0) es @ e
       # dropWhile (\<lambda>x. EntryCompare ucmp x e < 0) es"

section \<open>Properties of the coding helpers\<close>

declare VarintLength.simps [simp del]
declare ForwardScan.simps [simp del]
declare BackwardScan.simps [simp del]

lemma byte_and_128_iff: "((b::byte) AND 128 = 0) = (\<not> bit b 7)"
  using and_exp_eq_0_iff_not_bit [of b 7] by simp

lemma bit_below: "(w::'a::len word) < 2 ^ k \<Longrightarrow> bit w n \<Longrightarrow> n < k"
proof -
  assume a: "w < 2 ^ k" and b: "bit w n"
  from a have "w AND mask k = w" by (rule less_mask_eq)
  then have "bit (w AND mask k) n" using b by simp
  then show "n < k" by (simp add: bit_simps)
qed

lemma cont_bit_set [simp]: "(ucast ((w::uint32) OR 128) :: byte) AND 128 \<noteq> 0"
  by (simp add: byte_and_128_iff bit_simps)

lemma last_bit_clear: "(w::uint32) < 2 ^ 7 \<Longrightarrow> (ucast w :: byte) AND 128 = 0"
  using bit_below [of w 7 7] by (auto simp add: byte_and_128_iff bit_simps)

lemma low7: "(ucast ((ucast ((w::uint32) OR 128) :: byte) AND 127) :: uint32) = w AND 127"
proof (rule bit_word_eqI)
  fix n :: nat
  assume "n < LENGTH(32)"
  have m: "(127::byte) = mask 7" "(127::uint32) = mask 7"
    by (simp_all add: mask_eq_exp_minus_1)
  have e: "bit (128 :: uint32) n = (n = 7)"
    using bit_exp_iff [where ?'a = uint32, of 7 n] by auto
  show "bit (ucast ((ucast (w OR 128) :: byte) AND 127) :: uint32) n = bit (w AND 127) n"
    unfolding m using e by (auto simp add: bit_simps)
qed

lemma last7: "(w::uint32) < 2 ^ 7 \<Longrightarrow> (ucast (ucast w :: byte) :: uint32) = w"
proof (rule bit_word_eqI)
  fix n :: nat
  assume "w < 2 ^ 7" "n < LENGTH(32)"
  then show "bit (ucast (ucast w :: byte) :: uint32) n = bit w n"
    using bit_below [of w 7 n] by (auto simp add: bit_simps)
qed

lemma drop_lt: "(w::uint32) < 2 ^ (k + 7) \<Longrightarrow> k + 7 < 32 \<Longrightarrow> drop_bit k w < 2 ^ 7"
proof -
  assume a: "w < 2 ^ (k + 7)" "k + 7 < 32"
  have "drop_bit k w AND mask 7 = drop_bit k w"
  proof (rule bit_word_eqI)
    fix n :: nat
    assume "n < LENGTH(32)"
    then show "bit (drop_bit k w AND mask 7) n = bit (drop_bit k w) n"
      using bit_below [OF a(1), of "k + n"] by (auto simp add: bit_simps)
  qed
  then show ?thesis using mask_eq_iff_w2p [of 7 "drop_bit k w"] by (simp add: word_size)
qed

lemma drop28_lt: "drop_bit 28 (w::uint32) < 2 ^ 7"
proof -
  have "drop_bit 28 w AND mask 7 = drop_bit 28 w"
  proof (rule bit_word_eqI)
    fix n :: nat
    assume "n < LENGTH(32)"
    then show "bit (drop_bit 28 w AND mask 7) n = bit (drop_bit 28 w) n"
      using bit_imp_le_length [of w "28 + n"] by (auto simp add: bit_simps)
  qed
  then show ?thesis using mask_eq_iff_w2p [of 7 "drop_bit 28 w"] by (simp add: word_size)
qed


lemma m127: "(127::uint32) = mask 7"
  by (simp add: mask_eq_exp_minus_1)

lemma join2: "(v::uint32) AND 127 OR push_bit 7 (drop_bit 7 v) = v" (is "?l = v")
proof (rule bit_word_eqI)
  fix n :: nat
  assume "n < LENGTH(32)"
  then consider "n < 7" | "7 \<le> n \<and> n < 32" by fastforce
  then show "bit ?l n = bit v n"
    unfolding m127 by cases (auto simp add: bit_simps)
qed

lemma join3:
  "((v::uint32) AND 127 OR push_bit 7 (drop_bit 7 v AND 127)) OR push_bit 14 (drop_bit 14 v) = v"
  (is "?l = v")
proof (rule bit_word_eqI)
  fix n :: nat
  assume "n < LENGTH(32)"
  then consider "n < 7" | "7 \<le> n \<and> n < 14" | "14 \<le> n \<and> n < 32" by fastforce
  then show "bit ?l n = bit v n"
    unfolding m127 by cases (auto simp add: bit_simps)
qed

lemma join4: "(((v::uint32) AND 127 OR push_bit 7 (drop_bit 7 v AND 127))
    OR push_bit 14 (drop_bit 14 v AND 127)) OR push_bit 21 (drop_bit 21 v) = v"
  (is "?l = v")
proof (rule bit_word_eqI)
  fix n :: nat
  assume "n < LENGTH(32)"
  then consider "n < 7" | "7 \<le> n \<and> n < 14" | "14 \<le> n \<and> n < 21" | "21 \<le> n \<and> n < 32"
    by fastforce
  then show "bit ?l n = bit v n"
    unfolding m127 by cases (auto simp add: bit_simps)
qed

lemma join5: "((((v::uint32) AND 127 OR push_bit 7 (drop_bit 7 v AND 127))
    OR push_bit 14 (drop_bit 14 v AND 127)) OR push_bit 21 (drop_bit 21 v AND 127))
    OR push_bit 28 (drop_bit 28 v) = v"
  (is "?l = v")
proof (rule bit_word_eqI)
  fix n :: nat
  assume "n < LENGTH(32)"
  then consider "n < 7" | "7 \<le> n \<and> n < 14" | "14 \<le> n \<and> n < 21" | "21 \<le> n \<and> n < 28"
    | "28 \<le> n \<and> n < 32" by fastforce
  then show "bit ?l n = bit v n"
    unfolding m127 by cases (auto simp add: bit_simps)
qed

lemma GetVarint32Ptr_EncodeVarint32:
  "GetVarint32Ptr (EncodeVarint32 v @ rest) 5 = Some (v, rest)"
proof -
  consider "v < 2 ^ 7"
    | "\<not> v < 2 ^ 7" "v < 2 ^ 14"
    | "\<not> v < 2 ^ 7" "\<not> v < 2 ^ 14" "v < 2 ^ 21"
    | "\<not> v < 2 ^ 7" "\<not> v < 2 ^ 14" "\<not> v < 2 ^ 21" "v < 2 ^ 28"
    | "\<not> v < 2 ^ 7" "\<not> v < 2 ^ 14" "\<not> v < 2 ^ 21" "\<not> v < 2 ^ 28"
    by blast
  then show ?thesis
  proof cases
    case 1
    then show ?thesis
      using last_bit_clear [of v] last7 [of v]
      by (simp add: GetVarint32Ptr_def EncodeVarint32_def)
  next
    case 2
    have d: "drop_bit 7 v < 2 ^ 7" using drop_lt [of v 7] 2 by simp
    show ?thesis
      using 2 last_bit_clear [OF d] last7 [OF d] join2 [of v]
      by (simp add: GetVarint32Ptr_def EncodeVarint32_def low7)
  next
    case 3
    have d: "drop_bit 14 v < 2 ^ 7" using drop_lt [of v 14] 3 by simp
    show ?thesis
      using 3 last_bit_clear [OF d] last7 [OF d] join3 [of v]
      by (simp add: GetVarint32Ptr_def EncodeVarint32_def low7)
  next
    case 4
    have d: "drop_bit 21 v < 2 ^ 7" using drop_lt [of v 21] 4 by simp
    show ?thesis
      using 4 last_bit_clear [OF d] last7 [OF d] join4 [of v]
      by (simp add: GetVarint32Ptr_def EncodeVarint32_def low7)
  next
    case 5
    have d: "drop_bit 28 v < 2 ^ 7" by (rule drop28_lt)
    show ?thesis
      using 5 last_bit_clear [OF d] last7 [OF d] join5 [of v]
      by (simp add: GetVarint32Ptr_def EncodeVarint32_def low7)
  qed
qed

lemma VarintLength_small: "v < 128 \<Longrightarrow> VarintLength v = 1"
  by (subst VarintLength.simps) simp

lemma VarintLength_step: "128 \<le> v \<Longrightarrow> VarintLength v = Suc (VarintLength (v div 128))"
  by (subst VarintLength.simps) simp

lemma VarintLength_cases:
  "VarintLength v =
     (if v < 2 ^ 7 then 1 else if v < 2 ^ 14 then 2 else if v < 2 ^ 21 then 3
      else if v < 2 ^ 28 then 4 else if v < 2 ^ 35 then 5 else VarintLength v)"
proof -
  have a: "v < 2 ^ 14 \<Longrightarrow> v div 128 < 128" by simp
  have b: "v < 2 ^ 21 \<Longrightarrow> v div 128 div 128 < 128" by simp
  have c: "v < 2 ^ 28 \<Longrightarrow> v div 128 div 128 div 128 < 128" by simp
  have d: "v < 2 ^ 35 \<Longrightarrow> v div 128 div 128 div 128 div 128 < 128" by simp
  have e: "\<not> v < 2 ^ 14 \<Longrightarrow> 128 \<le> v div 128" by simp
  have f: "\<not> v < 2 ^ 21 \<Longrightarrow> 128 \<le> v div 128 div 128" by simp
  have g: "\<not> v < 2 ^ 28 \<Longrightarrow> 128 \<le> v div 128 div 128 div 128" by simp
  show ?thesis
    using a b c d e f g
    by (simp add: VarintLength_small VarintLength_step)
qed

lemma of_nat_less_pow32:
  assumes "n < 2 ^ 32"
  shows "((of_nat n :: uint32) < 2 ^ 7) = (n < 2 ^ 7)"
    and "((of_nat n :: uint32) < 2 ^ 14) = (n < 2 ^ 14)"
    and "((of_nat n :: uint32) < 2 ^ 21) = (n < 2 ^ 21)"
    and "((of_nat n :: uint32) < 2 ^ 28) = (n < 2 ^ 28)"
  using assms by (simp_all add: word_less_nat_alt unat_of_nat)

lemma length_EncodeVarint32:
  assumes "n < 2 ^ 32"
  shows "length (EncodeVarint32 (of_nat n)) = VarintLength n"
proof -
  have "n < 2 ^ 35" using assms by simp
  then show ?thesis
    using of_nat_less_pow32 [OF assms]
    by (subst VarintLength_cases) (simp add: EncodeVarint32_def)
qed

lemma length_EncodeFixed64 [simp]: "length (EncodeFixed64 v) = 8"
  by (simp add: EncodeFixed64_def)

lemma fixed64_bytes_join:
  fixes v :: uint64
  shows "ucast (ucast v :: byte) OR push_bit 8 (ucast (ucast (drop_bit 8 v) :: byte))
       OR push_bit 16 (ucast (ucast (drop_bit 16 v) :: byte))
       OR push_bit 24 (ucast (ucast (drop_bit 24 v) :: byte))
       OR push_bit 32 (ucast (ucast (drop_bit 32 v) :: byte))
       OR push_bit 40 (ucast (ucast (drop_bit 40 v) :: byte))
       OR push_bit 48 (ucast (ucast (drop_bit 48 v) :: byte))
       OR push_bit 56 (ucast (ucast (drop_bit 56 v) :: byte)) = v" (is "?lhs = v")
proof (rule bit_word_eqI)
  fix n :: nat
  assume "n < LENGTH(64)"
  then consider "n < 8" | "8 \<le> n \<and> n < 16" | "16 \<le> n \<and> n < 24" | "24 \<le> n \<and> n < 32"
    | "32 \<le> n \<and> n < 40" | "40 \<le> n \<and> n < 48" | "48 \<le> n \<and> n < 56" | "56 \<le> n \<and> n < 64"
    by fastforce
  then show "bit ?lhs n = bit v n"
    by cases (simp_all add: bit_simps less_diff_conv2)
qed

lemma DecodeFixed64_EncodeFixed64 [simp]: "DecodeFixed64 (EncodeFixed64 v @ p) = Some v"
  by (simp add: EncodeFixed64_def fixed64_bytes_join)

lemma unat_of_nat32: "n < 2 ^ 32 \<Longrightarrow> unat (of_nat n :: uint32) = n"
  by (simp add: unat_of_nat)

section \<open>The entry written by Add\<close>

lemma length_Add_buf:
  assumes "length key + 8 < 2 ^ 32" and "length val < 2 ^ 32"
  shows "length (Add_buf s type key val) = Add_encoded_len key val"
  using length_EncodeVarint32 [OF assms(1)] length_EncodeVarint32 [OF assms(2)]
  by (simp add: Add_buf_def Add_encoded_len_def Let_def)

lemma SkipList_Insert_mem:
  "SkipList_Insert cmp k xs = Some ys \<Longrightarrow> set ys = insert k (set xs)"
proof (induction xs arbitrary: ys)
  case Nil
  then show ?case by auto
next
  case (Cons x xs)
  then show ?case
    by (auto split: option.splits if_splits)
qed

lemma Add_Some:
  assumes "Add s type key val m = Some m'"
  shows "length (Add_buf s type key val) = Add_encoded_len key val"
    and "SkipList_Insert (KeyComparator (comparator m)) (Add_buf s type key val) (table m)
           = Some (table m')"
    and "arena m' = Arena_Allocate (Add_encoded_len key val) (arena m)"
    and "refs m' = refs m" and "comparator m' = comparator m"
  using assms by (auto simp add: Add_def Let_def split: if_splits option.splits)

text \<open>C3. The bytes \<^verbatim>\<open>Add\<close> writes are the varint32 of the key length plus eight, the
  user key, the eight bytes of \<open>(s << 8) | type\<close>, the varint32 of the value length and
  the value. In every \<^verbatim>\<open>Add\<close> that completes these bytes are in the table and fill the
  allocation, whose size is the sum of the five parts. For sizes that fit 32 bits the
  bytes always fill the allocation and the two varints hold the exact lengths.\<close>

theorem Add_entry_layout:
  "Add_buf s type key val =
     EncodeVarint32 (of_nat (length key + 8)) @ key
       @ EncodeFixed64 (push_bit 8 s OR ValueType_code type)
       @ EncodeVarint32 (of_nat (length val)) @ val
   \<and> length (EncodeFixed64 (push_bit 8 s OR ValueType_code type)) = 8
   \<and> (Add s type key val m = Some m' \<longrightarrow>
        Add_buf s type key val \<in> set (table m')
        \<and> length (Add_buf s type key val) = Add_encoded_len key val
        \<and> Add_encoded_len key val =
            length (EncodeVarint32 (of_nat (length key + 8))) + length key + 8
              + length (EncodeVarint32 (of_nat (length val))) + length val)
   \<and> (length key + 8 < 2 ^ 32 \<and> length val < 2 ^ 32 \<longrightarrow>
        length (Add_buf s type key val) = Add_encoded_len key val
        \<and> unat (of_nat (length key + 8) :: uint32) = length key + 8
        \<and> unat (of_nat (length val) :: uint32) = length val)"
proof -
  have a: "Add_buf s type key val =
           EncodeVarint32 (of_nat (length key + 8)) @ key
             @ EncodeFixed64 (push_bit 8 s OR ValueType_code type)
             @ EncodeVarint32 (of_nat (length val)) @ val"
    by (simp add: Add_buf_def Let_def)
  have b: "length (EncodeFixed64 (push_bit 8 s OR ValueType_code type)) = 8"
    by simp
  have c: "Add s type key val m = Some m' \<longrightarrow>
        Add_buf s type key val \<in> set (table m')
        \<and> length (Add_buf s type key val) = Add_encoded_len key val
        \<and> Add_encoded_len key val =
            length (EncodeVarint32 (of_nat (length key + 8))) + length key + 8
              + length (EncodeVarint32 (of_nat (length val))) + length val"
  proof (rule impI)
    assume add: "Add s type key val m = Some m'"
    have mem: "Add_buf s type key val \<in> set (table m')"
      using Add_Some(2) [OF add] SkipList_Insert_mem by fastforce
    have len: "length (Add_buf s type key val) = Add_encoded_len key val"
      using add by (rule Add_Some(1))
    have "length (Add_buf s type key val) =
            length (EncodeVarint32 (of_nat (length key + 8))) + length key + 8
              + length (EncodeVarint32 (of_nat (length val))) + length val"
      unfolding a by simp
    then show "Add_buf s type key val \<in> set (table m')
        \<and> length (Add_buf s type key val) = Add_encoded_len key val
        \<and> Add_encoded_len key val =
            length (EncodeVarint32 (of_nat (length key + 8))) + length key + 8
              + length (EncodeVarint32 (of_nat (length val))) + length val"
      using mem len by simp
  qed
  have d: "length key + 8 < 2 ^ 32 \<and> length val < 2 ^ 32 \<longrightarrow>
        length (Add_buf s type key val) = Add_encoded_len key val
        \<and> unat (of_nat (length key + 8) :: uint32) = length key + 8
        \<and> unat (of_nat (length val) :: uint32) = length val"
    using length_Add_buf [of key val s type] unat_of_nat32 [of "length key + 8"]
      unat_of_nat32 [of "length val"]
    by blast
  show ?thesis
    by (rule conjI [OF a conjI [OF b conjI [OF c d]]])
qed

theorem Add_entry_layout_witness:
  "length [107 :: byte] + 8 < (2::nat) ^ 32 \<and> length [97 :: byte] < (2::nat) ^ 32
   \<and> Add_buf 1 kTypeValue [107] [97] = [9, 107, 1, 1, 0, 0, 0, 0, 0, 0, 1, 97]
   \<and> Add 1 kTypeValue [107] [97] (NewMemTable (InternalKeyComparator BytewiseCompare)) =
       Some \<lparr> comparator = InternalKeyComparator BytewiseCompare, refs = 0,
              arena = \<lparr> memory_usage = 12 \<rparr>,
              table = [[9, 107, 1, 1, 0, 0, 0, 0, 0, 0, 1, 97]] \<rparr>
   \<and> length (Add_buf 1 kTypeValue [107] [97]) = Add_encoded_len [107] [97]
   \<and> Add_encoded_len [107] [97] = 12"
proof -
  let ?m = "NewMemTable (InternalKeyComparator BytewiseCompare)"
  let ?m' = "\<lparr> comparator = InternalKeyComparator BytewiseCompare, refs = 0,
              arena = \<lparr> memory_usage = 12 \<rparr>,
              table = [[9, 107, 1, 1, 0, 0, 0, 0, 0, 0, 1, 97 :: byte]] \<rparr>"
  have h1: "length [107 :: byte] + 8 < (2::nat) ^ 32" by simp
  have h2: "length [97 :: byte] < (2::nat) ^ 32" by simp
  have e: "Add 1 kTypeValue [107] [97] ?m = Some ?m'"
    by (simp add: Add_def Add_buf_def Add_encoded_len_def Let_def NewMemTable_def
        VarintLength_small EncodeVarint32_def EncodeFixed64_def Arena_Allocate_def)
  note t = Add_entry_layout [of 1 kTypeValue "[107]" "[97]" ?m ?m']
  have b: "Add_buf 1 kTypeValue [107] [97] = [9, 107, 1, 1, 0, 0, 0, 0, 0, 0, 1, 97]"
    using t by (simp add: EncodeVarint32_def EncodeFixed64_def)
  have l: "length (Add_buf 1 kTypeValue [107] [97]) = Add_encoded_len [107] [97]"
    using t e by blast
  then have n: "Add_encoded_len [107] [97] = 12"
    using b by simp
  show ?thesis
    using h1 h2 b e l n by (intro conjI)
qed

section \<open>Tags and the round trip of an entry\<close>

lemma ValueType_code_less: "ValueType_code t < 2 ^ 8"
  by (cases t) simp_all

lemma ValueType_code_le: "ValueType_code t \<le> 1"
  by (cases t) simp_all

lemma ValueType_code_inj: "ValueType_code t = ValueType_code t' \<Longrightarrow> t = t'"
  by (cases t; cases t') simp_all

lemma tag_low_byte:
  fixes s c :: uint64
  assumes "c < 2 ^ 8"
  shows "(push_bit 8 s OR c) AND 0xff = c"
proof (rule bit_word_eqI)
  fix n :: nat
  assume "n < LENGTH(64)"
  have m: "(0xff :: uint64) = mask 8" by (simp add: mask_eq_exp_minus_1)
  show "bit ((push_bit 8 s OR c) AND 0xff) n = bit c n"
    unfolding m using bit_below [OF assms, of n] by (auto simp add: bit_simps)
qed

lemma tag_sequence:
  fixes s c :: uint64
  assumes "s < 2 ^ 56" and "c < 2 ^ 8"
  shows "drop_bit 8 (push_bit 8 s OR c) = s"
proof (rule bit_word_eqI)
  fix n :: nat
  assume "n < LENGTH(64)"
  then show "bit (drop_bit 8 (push_bit 8 s OR c)) n = bit s n"
    using bit_below [OF assms(1), of n] bit_below [OF assms(2), of "8 + n"]
    by (auto simp add: bit_simps)
qed

lemma unat_tag:
  fixes s c :: uint64
  assumes "s < 2 ^ 56" and "c < 2 ^ 8"
  shows "unat (push_bit 8 s OR c) = unat s * 256 + unat c"
proof -
  have "push_bit 8 s AND c = 0"
  proof (rule bit_word_eqI)
    fix n :: nat
    assume "n < LENGTH(64)"
    then show "bit (push_bit 8 s AND c) n = bit (0::uint64) n"
      using bit_below [OF assms(2), of n] by (auto simp add: bit_simps)
  qed
  then have e: "push_bit 8 s OR c = push_bit 8 s + c"
    by (simp add: disjunctive_add_eq_or)
  have us: "unat s < 2 ^ 56" using assms(1) by (simp add: word_less_nat_alt)
  have uc: "unat c < 2 ^ 8" using assms(2) by (simp add: word_less_nat_alt)
  have "unat s * unat (256 :: uint64) < 2 ^ LENGTH(64)"
    using us by simp
  then have "unat (s * 256) = unat s * unat (256 :: uint64)"
    by (rule unat_mult_lem [THEN iffD1])
  then have p: "unat (push_bit 8 s) = unat s * 256"
    by (simp add: push_bit_eq_mult)
  have "unat (push_bit 8 s + c) = unat (push_bit 8 s) + unat c"
    using us uc p by (simp add: unat_add_lem [THEN iffD1])
  then show ?thesis using e p by simp
qed

lemma tag_less_iff:
  fixes s s' :: uint64
  assumes "s < 2 ^ 56" and "s' < 2 ^ 56"
  shows "(push_bit 8 s OR ValueType_code t < push_bit 8 s' OR ValueType_code t') =
         (s < s' \<or> (s = s' \<and> ValueType_code t < ValueType_code t'))"
proof -
  have c: "unat (ValueType_code t) < 2" "unat (ValueType_code t') < 2"
    by (cases t, simp_all, cases t', simp_all)
  show ?thesis
    using c unat_tag [OF assms(1) ValueType_code_less [of t]]
      unat_tag [OF assms(2) ValueType_code_less [of t']]
    by (auto simp add: word_less_nat_alt word_unat_eq_iff)
qed

lemma DecodeFixed64_EncodeFixed64_only [simp]: "DecodeFixed64 (EncodeFixed64 v) = Some v"
  using DecodeFixed64_EncodeFixed64 [of v "[]"] by simp

lemma GetLengthPrefixedSlice_prefixed:
  "length x < 2 ^ 32 \<Longrightarrow>
   GetLengthPrefixedSlice (EncodeVarint32 (of_nat (length x)) @ x @ rest) = Some (x, rest)"
  by (simp add: GetLengthPrefixedSlice_def GetVarint32Ptr_EncodeVarint32 unat_of_nat32)

lemma GetLengthPrefixedSlice_Add_buf:
  assumes "length key + 8 < 2 ^ 32"
  shows "GetLengthPrefixedSlice (Add_buf s type key val) =
     Some (key @ EncodeFixed64 (push_bit 8 s OR ValueType_code type),
           EncodeVarint32 (of_nat (length val)) @ val)"
  using assms
    GetLengthPrefixedSlice_prefixed
      [of "key @ EncodeFixed64 (push_bit 8 s OR ValueType_code type)"
          "EncodeVarint32 (of_nat (length val)) @ val"]
  by (simp add: Add_buf_def Let_def)

lemma GetLengthPrefixedSlice_value:
  "length val < 2 ^ 32 \<Longrightarrow>
   GetLengthPrefixedSlice (EncodeVarint32 (of_nat (length val)) @ val) = Some (val, [])"
  using GetLengthPrefixedSlice_prefixed [of val "[]"] by simp

lemma ExtractUserKey_internal [simp]: "ExtractUserKey (key @ EncodeFixed64 g) = Some key"
  by (simp add: ExtractUserKey_def)

text \<open>C4. For sizes that fit the 32-bit varint and a sequence number below \<open>2^56\<close>,
  an entry added to a new table reads back through the iterator: \<^verbatim>\<open>key()\<close> is the
  internal key, whose part before the last eight bytes is the user key and whose last
  eight bytes decode to a tag with \<open>tag >> 8\<close> the sequence number and \<open>tag & 0xff\<close> the
  code of the type alone, and \<^verbatim>\<open>value()\<close> is the value.\<close>

theorem entry_round_trip:
  assumes "length key + 8 < 2 ^ 32" and "length val < 2 ^ 32" and "s < 2 ^ 56"
  shows "\<exists>m ikey tag.
           Add s type key val (NewMemTable cmp) = Some m
         \<and> MemTableIterator_Valid (MemTableIterator_SeekToFirst m)
         \<and> MemTableIterator_key m (MemTableIterator_SeekToFirst m) = Some ikey
         \<and> ExtractUserKey ikey = Some key
         \<and> DecodeFixed64 (drop (length ikey - 8) ikey) = Some tag
         \<and> drop_bit 8 tag = s
         \<and> tag AND 0xff = ValueType_code type
         \<and> (\<forall>type'. tag AND 0xff = ValueType_code type' \<longrightarrow> type' = type)
         \<and> MemTableIterator_value m (MemTableIterator_SeekToFirst m) = Some val"
proof -
  let ?tag = "push_bit 8 s OR ValueType_code type"
  let ?m = "(NewMemTable cmp)\<lparr>arena := Arena_Allocate (Add_encoded_len key val) (arena (NewMemTable cmp)),
              table := [Add_buf s type key val]\<rparr>"
  have a: "Add s type key val (NewMemTable cmp) = Some ?m"
    using length_Add_buf [OF assms(1,2), of s type]
    by (simp add: Add_def Let_def NewMemTable_def)
  have f: "MemTableIterator_SeekToFirst ?m = Some 0"
    by (simp add: MemTableIterator_SeekToFirst_def SkipList_SeekToFirst_def)
  have k: "MemTableIterator_key ?m (Some 0) = Some (key @ EncodeFixed64 ?tag)"
    using GetLengthPrefixedSlice_Add_buf [OF assms(1), of s type val]
    by (simp add: MemTableIterator_key_def SkipList_key_def)
  have v: "MemTableIterator_value ?m (Some 0) = Some val"
    using GetLengthPrefixedSlice_Add_buf [OF assms(1), of s type val]
      GetLengthPrefixedSlice_value [OF assms(2)]
    by (simp add: MemTableIterator_value_def SkipList_key_def)
  have t1: "drop_bit 8 ?tag = s"
    by (rule tag_sequence [OF assms(3) ValueType_code_less])
  have t2: "?tag AND 0xff = ValueType_code type"
    by (rule tag_low_byte [OF ValueType_code_less])
  have t3: "\<forall>type'. ?tag AND 0xff = ValueType_code type' \<longrightarrow> type' = type"
    using t2 ValueType_code_inj by metis
  have d: "DecodeFixed64 (drop (length (key @ EncodeFixed64 ?tag) - 8) (key @ EncodeFixed64 ?tag))
      = Some ?tag"
    by simp
  have e: "ExtractUserKey (key @ EncodeFixed64 ?tag) = Some key"
    by simp
  have valid: "MemTableIterator_Valid (Some 0)"
    by (simp add: MemTableIterator_Valid_def SkipList_Valid_def)
  show ?thesis
    apply (rule exI [of _ ?m])
    apply (rule exI [of _ "key @ EncodeFixed64 ?tag"])
    apply (rule exI [of _ ?tag])
    unfolding f
    apply (intro conjI)
            apply (rule a)
           apply (rule valid)
          apply (rule k)
         apply (rule e)
        apply (rule d)
       apply (rule t1)
      apply (rule t2)
     apply (rule t3)
    apply (rule v)
    done
qed

theorem entry_round_trip_witness:
  "length [107 :: byte] + 8 < (2::nat) ^ 32 \<and> length [97 :: byte] < (2::nat) ^ 32
   \<and> (5 :: uint64) < 2 ^ 56
   \<and> (\<exists>m ikey tag.
         Add 5 kTypeValue [107] [97] (NewMemTable (InternalKeyComparator BytewiseCompare)) = Some m
       \<and> MemTableIterator_key m (MemTableIterator_SeekToFirst m) = Some ikey
       \<and> ExtractUserKey ikey = Some [107]
       \<and> DecodeFixed64 (drop (length ikey - 8) ikey) = Some tag
       \<and> drop_bit 8 tag = 5
       \<and> tag AND 0xff = ValueType_code kTypeValue
       \<and> MemTableIterator_value m (MemTableIterator_SeekToFirst m) = Some [97])"
proof -
  have h1: "length [107 :: byte] + 8 < (2::nat) ^ 32" by simp
  have h2: "length [97 :: byte] < (2::nat) ^ 32" by simp
  have h3: "(5 :: uint64) < 2 ^ 56" by simp
  show ?thesis
    using h1 h2 h3
      entry_round_trip [OF h1 h2 h3, of kTypeValue "InternalKeyComparator BytewiseCompare"]
    by blast
qed

section \<open>Seeking and Get\<close>

lemma FindGreaterOrEqual_map:
  assumes "\<forall>x\<in>set xs. cmp (g x) k = Some (f x)"
  shows "FindGreaterOrEqual cmp k (map g xs) =
     Some (if \<forall>x\<in>set xs. f x < 0 then None
           else Some (length (takeWhile (\<lambda>x. f x < 0) xs)))"
  using assms by (induction xs) auto

lemma SkipList_Insert_map:
  assumes "\<forall>x\<in>set xs. cmp (g x) (g k) = Some (f x)"
  shows "SkipList_Insert cmp (g k) (map g xs) =
     Some (map g (takeWhile (\<lambda>x. f x < 0) xs @ k # dropWhile (\<lambda>x. f x < 0) xs))"
  using assms by (induction xs) auto

lemma Compare_internal:
  "Compare c (ka @ EncodeFixed64 ga) (kb @ EncodeFixed64 gb) =
     Some (let r = user_comparator c ka kb in
           if r = 0 then (if ga > gb then - 1 else if ga < gb then 1 else r) else r)"
  by (simp add: Compare_def Let_def)

lemma KeyComparator_EntryBuf:
  assumes "fits_call a" and "fits_call b"
  shows "KeyComparator c (EntryBuf a) (EntryBuf b) = Some (EntryCompare (user_comparator c) a b)"
proof -
  obtain sa ta ka va where a: "a = (sa, ta, ka, va)" by (cases a) auto
  obtain sb tb kb vb where b: "b = (sb, tb, kb, vb)" by (cases b) auto
  have la: "length ka + 8 < 2 ^ 32" and lb: "length kb + 8 < 2 ^ 32"
    using assms a b by (simp_all add: fits_call_def)
  show ?thesis
    unfolding a b
    by (simp add: KeyComparator_def EntryBuf_def EntryCompare_def Compare_internal
        GetLengthPrefixedSlice_Add_buf [OF la] GetLengthPrefixedSlice_Add_buf [OF lb] Let_def)
qed

lemma memtable_key_eq:
  "memtable_key (NewLookupKey ukey sq) =
     EncodeVarint32 (of_nat (length (ukey @ EncodeFixed64 (push_bit 8 sq OR ValueType_code kValueTypeForSeek))))
       @ (ukey @ EncodeFixed64 (push_bit 8 sq OR ValueType_code kValueTypeForSeek)) @ []"
  by (simp add: NewLookupKey_def)

lemma KeyComparator_lookup:
  assumes "fits_call a" and "length ukey + 8 < 2 ^ 32"
  shows "KeyComparator c (EntryBuf a) (memtable_key (NewLookupKey ukey sq)) =
     Some (EntryCompare (user_comparator c) a (sq, kValueTypeForSeek, ukey, []))"
proof -
  obtain sa ta ka va where a: "a = (sa, ta, ka, va)" by (cases a) auto
  have la: "length ka + 8 < 2 ^ 32"
    using assms a by (simp_all add: fits_call_def)
  have lk: "length (ukey @ EncodeFixed64 (push_bit 8 sq OR ValueType_code kValueTypeForSeek))
      < 2 ^ 32"
    using assms(2) by simp
  show ?thesis
    unfolding a memtable_key_eq
    by (simp only: KeyComparator_def EntryBuf_def EntryCompare_def Compare_internal
        GetLengthPrefixedSlice_Add_buf [OF la] GetLengthPrefixedSlice_prefixed [OF lk]
        Let_def option.case prod.case)
qed

lemma EntryCompare_seek:
  assumes "fits_call e" and "sq < 2 ^ 56"
  shows "(EntryCompare ucmp e (sq, kValueTypeForSeek, ukey, v) < 0) = (\<not> at_or_after ucmp ukey sq e)"
proof -
  obtain s t k va where e: "e = (s, t, k, va)" by (cases e) auto
  have s: "s < 2 ^ 56" using assms(1) e by (simp add: fits_call_def)
  have c: "\<not> (1 < ValueType_code t)"
    using ValueType_code_le [of t] by simp
  show ?thesis
    unfolding e
    using tag_less_iff [OF assms(2) s, of kTypeValue t] c
    by (auto simp add: EntryCompare_def at_or_after_def Let_def kValueTypeForSeek_def)
qed

lemma find_takeWhile:
  "find P xs = (if \<forall>x\<in>set xs. \<not> P x then None
                else Some (xs ! length (takeWhile (\<lambda>x. \<not> P x) xs)))"
  by (induction xs) auto

lemma length_takeWhile_less:
  "\<not> (\<forall>x\<in>set xs. \<not> P x) \<Longrightarrow> length (takeWhile (\<lambda>x. \<not> P x) xs) < length xs"
  by (induction xs) auto

lemma Seek_entries:
  assumes "table m = map EntryBuf es" and "\<forall>e\<in>set es. fits_call e"
    and "length ukey + 8 < 2 ^ 32" and "sq < 2 ^ 56"
  shows "SkipList_Seek (KeyComparator (comparator m)) (table m)
           (memtable_key (NewLookupKey ukey sq)) =
     Some (if \<forall>e\<in>set es. \<not> at_or_after (user_comparator (comparator m)) ukey sq e then None
           else Some (length (takeWhile
                  (\<lambda>e. \<not> at_or_after (user_comparator (comparator m)) ukey sq e) es)))"
proof -
  let ?ucmp = "user_comparator (comparator m)"
  let ?f = "\<lambda>e. EntryCompare ?ucmp e (sq, kValueTypeForSeek, ukey, [])"
  have c: "\<forall>x\<in>set es. KeyComparator (comparator m) (EntryBuf x)
      (memtable_key (NewLookupKey ukey sq)) = Some (?f x)"
    using assms(2,3) KeyComparator_lookup by blast
  have p: "\<And>e. e \<in> set es \<Longrightarrow> (?f e < 0) = (\<not> at_or_after ?ucmp ukey sq e)"
    using assms(2,4) EntryCompare_seek by blast
  have t: "takeWhile (\<lambda>e. ?f e < 0) es = takeWhile (\<lambda>e. \<not> at_or_after ?ucmp ukey sq e) es"
    by (rule takeWhile_cong [OF refl]) (rule p)
  have a: "(\<forall>x\<in>set es. ?f x < 0) = (\<forall>e\<in>set es. \<not> at_or_after ?ucmp ukey sq e)"
    using p by blast
  note fge = FindGreaterOrEqual_map [where xs = es and g = EntryBuf and f = ?f
      and cmp = "KeyComparator (comparator m)" and k = "memtable_key (NewLookupKey ukey sq)",
      OF c]
  show ?thesis
    unfolding SkipList_Seek_def assms(1) fge t a ..
qed

lemma GetVarint32Ptr_Add_buf:
  "GetVarint32Ptr (Add_buf s type key val) 5 =
     Some (of_nat (length key + 8),
           key @ EncodeFixed64 (push_bit 8 s OR ValueType_code type)
             @ EncodeVarint32 (of_nat (length val)) @ val)"
  by (simp add: Add_buf_def Let_def GetVarint32Ptr_EncodeVarint32)

lemma Get_after_varint:
  fixes s :: SequenceNumber and type :: ValueType and key val :: Slice
  assumes "length key + 8 < 2 ^ 32" and "length val < 2 ^ 32"
  defines "key_length \<equiv> (of_nat (length key + 8) :: uint32)"
    and "key_ptr \<equiv> key @ EncodeFixed64 (push_bit 8 s OR ValueType_code type)
             @ EncodeVarint32 (of_nat (length val)) @ val"
  shows "\<not> (unat key_length < 8 \<or> length key_ptr < unat key_length)"
    and "take (unat key_length - 8) key_ptr = key"
    and "DecodeFixed64 (drop (unat key_length - 8) key_ptr) =
           Some (push_bit 8 s OR ValueType_code type)"
    and "GetLengthPrefixedSlice (drop (unat key_length) key_ptr) = Some (val, [])"
  using unat_of_nat32 [OF assms(1)] GetLengthPrefixedSlice_value [OF assms(2)]
  by (simp_all add: key_length_def key_ptr_def)

lemma Get_entries:
  assumes "table m = map EntryBuf es" and "\<forall>e\<in>set es. fits_call e"
    and "length ukey + 8 < 2 ^ 32" and "sq < 2 ^ 56"
  shows "Get (NewLookupKey ukey sq) val st m =
     Some (case find (at_or_after (user_comparator (comparator m)) ukey sq) es of
             None \<Rightarrow> (False, val, st)
           | Some (s, type, key, v) \<Rightarrow>
               if user_comparator (comparator m) key ukey = 0 then
                 (case type of
                    kTypeValue \<Rightarrow> (True, v, st)
                  | kTypeDeletion \<Rightarrow> (True, val, NotFound))
               else (False, val, st))"
proof (cases "\<forall>e\<in>set es. \<not> at_or_after (user_comparator (comparator m)) ukey sq e")
  case True
  then show ?thesis
    using Seek_entries [OF assms]
    by (simp add: Get_def find_takeWhile SkipList_Valid_def)
next
  case False
  let ?P = "at_or_after (user_comparator (comparator m)) ukey sq"
  let ?i = "length (takeWhile (\<lambda>e. \<not> ?P e) es)"
  have i: "?i < length es"
    using False by (rule length_takeWhile_less)
  obtain s type key v where e: "es ! ?i = (s, type, key, v)"
    by (cases "es ! ?i") auto
  have fits: "fits_call (s, type, key, v)"
    using assms(2) i e nth_mem by metis
  then have lk: "length key + 8 < 2 ^ 32" and lv: "length v < 2 ^ 32"
    by (simp_all add: fits_call_def)
  have entry: "SkipList_key (table m) (Some ?i) = Some (Add_buf s type key v)"
    using i e by (simp add: SkipList_key_def assms(1) EntryBuf_def)
  have uk: "user_key (NewLookupKey ukey sq) = ukey"
    by (simp add: NewLookupKey_def)
  have low: "(push_bit 8 s OR ValueType_code type) AND 0xff = ValueType_code type"
    by (rule tag_low_byte [OF ValueType_code_less])
  define kl where "kl = (of_nat (length key + 8) :: uint32)"
  define kp where "kp = key @ EncodeFixed64 (push_bit 8 s OR ValueType_code type)
             @ EncodeVarint32 (of_nat (length v)) @ v"
  note g = Get_after_varint [OF lk lv, of s type, folded kl_def kp_def]
  have gv: "GetVarint32Ptr (Add_buf s type key v) 5 = Some (kl, kp)"
    unfolding kl_def kp_def by (rule GetVarint32Ptr_Add_buf)
  have sk: "SkipList_Seek (KeyComparator (comparator m)) (table m)
           (memtable_key (NewLookupKey ukey sq)) = Some (Some ?i)"
    using False Seek_entries [OF assms] by simp
  have "Get (NewLookupKey ukey sq) val st m =
      Some (if user_comparator (comparator m) key ukey = 0 then
              (if ValueType_code type = ValueType_code kTypeValue then (True, v, st)
               else if ValueType_code type = ValueType_code kTypeDeletion
                 then (True, val, NotFound)
               else (False, val, st))
            else (False, val, st))"
    unfolding Get_def Let_def sk
    by (simp add: SkipList_Valid_def entry gv g uk low)
  then have "Get (NewLookupKey ukey sq) val st m =
      Some (if user_comparator (comparator m) key ukey = 0 then
              (case type of kTypeValue \<Rightarrow> (True, v, st) | kTypeDeletion \<Rightarrow> (True, val, NotFound))
            else (False, val, st))"
    by (cases type) simp_all
  then show ?thesis
    using False e by (auto simp add: find_takeWhile)
qed

text \<open>C1. On a table holding the entries \<open>es\<close> in order, \<^verbatim>\<open>Get\<close> of a lookup key takes
  the first entry at or after the seek target: with none, or with one whose user key
  differs under the user comparator, it returns false and leaves value and status;
  with a matching user key it returns true with the stored value for type Value, and
  true with status NotFound for type Deletion.\<close>

theorem Get_three_outcomes:
  assumes "table m = map EntryBuf es" and "\<forall>e\<in>set es. fits_call e"
    and "length ukey + 8 < 2 ^ 32" and "sq < 2 ^ 56"
  shows "Get (NewLookupKey ukey sq) val st m =
     Some (case find (at_or_after (user_comparator (comparator m)) ukey sq) es of
             None \<Rightarrow> (False, val, st)
           | Some (s, type, key, v) \<Rightarrow>
               if user_comparator (comparator m) key ukey = 0 then
                 (case type of
                    kTypeValue \<Rightarrow> (True, v, st)
                  | kTypeDeletion \<Rightarrow> (True, val, NotFound))
               else (False, val, st))"
  using assms by (rule Get_entries)

lemma example_entries:
  "[[9, 107, 1, 2, 0, 0, 0, 0, 0, 0, 1, 98], [9, 107, 1, 1, 0, 0, 0, 0, 0, 0, 1, 97]] =
     map EntryBuf [(2, kTypeValue, [107], [98]), (1, kTypeValue, [107], [97])]"
  by (simp add: EntryBuf_def Add_buf_def Let_def EncodeVarint32_def EncodeFixed64_def)

theorem Get_three_outcomes_witness:
  "Get (NewLookupKey [107] 1) [] OK
     \<lparr> comparator = InternalKeyComparator BytewiseCompare, refs = 0,
       arena = \<lparr> memory_usage = 24 \<rparr>,
       table = [[9, 107, 1, 2, 0, 0, 0, 0, 0, 0, 1, 98],
                [9, 107, 1, 1, 0, 0, 0, 0, 0, 0, 1, 97]] \<rparr>
   = Some (True, [97], OK)"
proof -
  let ?m = "\<lparr> comparator = InternalKeyComparator BytewiseCompare, refs = 0,
       arena = \<lparr> memory_usage = 24 \<rparr>,
       table = [[9, 107, 1, 2, 0, 0, 0, 0, 0, 0, 1, 98],
                [9, 107, 1, 1, 0, 0, 0, 0, 0, 0, 1, 97]] \<rparr>"
  let ?es = "[(2, kTypeValue, [107], [98]), (1, kTypeValue, [107], [97])] :: AddCall list"
  have h1: "table ?m = map EntryBuf ?es"
    using example_entries by simp
  have h2: "\<forall>e\<in>set ?es. fits_call e"
    by (simp add: fits_call_def)
  have h3: "length [107 :: byte] + 8 < (2::nat) ^ 32" by simp
  have h4: "(1 :: uint64) < 2 ^ 56" by simp
  have f: "find (at_or_after BytewiseCompare [107] 1) ?es = Some (1, kTypeValue, [107], [97])"
    by (simp add: at_or_after_def word_le_nat_alt)
  show ?thesis
    using Get_three_outcomes [OF h1 h2 h3 h4, of "[]" OK] f
    by simp
qed

lemma Get_frame_any:
  assumes "Get key val s m = Some (r, val', s')"
  shows "(\<not> r \<longrightarrow> val' = val \<and> s' = s) \<and> (val' \<noteq> val \<longrightarrow> r \<and> s' = s)
       \<and> (s' \<noteq> s \<longrightarrow> r \<and> s' = NotFound \<and> val' = val)"
  using assms
  by (auto simp add: Get_def Let_def split: option.splits if_splits prod.splits)

text \<open>C10. Whatever the table, a \<^verbatim>\<open>Get\<close> that returns false leaves \<^verbatim>\<open>*value\<close> and
  \<^verbatim>\<open>*s\<close> as they were, one that changes \<^verbatim>\<open>*value\<close> returns true and leaves \<^verbatim>\<open>*s\<close>, and
  one that changes \<^verbatim>\<open>*s\<close> returns true with NotFound and leaves \<^verbatim>\<open>*value\<close>; when the
  first entry at or after the seek target is a Deletion of the user key, \<^verbatim>\<open>Get\<close> returns
  true with NotFound and the value unchanged.\<close>

theorem Get_frame:
  "(Get key val s m = Some (r, val', s') \<longrightarrow>
      (\<not> r \<longrightarrow> val' = val \<and> s' = s) \<and> (val' \<noteq> val \<longrightarrow> r \<and> s' = s)
      \<and> (s' \<noteq> s \<longrightarrow> r \<and> s' = NotFound \<and> val' = val))
   \<and> (table m = map EntryBuf es \<and> (\<forall>e\<in>set es. fits_call e)
      \<and> length ukey + 8 < 2 ^ 32 \<and> sq < 2 ^ 56
      \<and> find (at_or_after (user_comparator (comparator m)) ukey sq) es
           = Some (sd, kTypeDeletion, kd, vd)
      \<and> user_comparator (comparator m) kd ukey = 0 \<longrightarrow>
        Get (NewLookupKey ukey sq) val s m = Some (True, val, NotFound))"
proof -
  have p1: "Get key val s m = Some (r, val', s') \<longrightarrow>
      (\<not> r \<longrightarrow> val' = val \<and> s' = s) \<and> (val' \<noteq> val \<longrightarrow> r \<and> s' = s)
      \<and> (s' \<noteq> s \<longrightarrow> r \<and> s' = NotFound \<and> val' = val)"
    using Get_frame_any by blast
  have p2: "table m = map EntryBuf es \<and> (\<forall>e\<in>set es. fits_call e)
      \<and> length ukey + 8 < 2 ^ 32 \<and> sq < 2 ^ 56
      \<and> find (at_or_after (user_comparator (comparator m)) ukey sq) es
           = Some (sd, kTypeDeletion, kd, vd)
      \<and> user_comparator (comparator m) kd ukey = 0 \<longrightarrow>
        Get (NewLookupKey ukey sq) val s m = Some (True, val, NotFound)"
  proof (rule impI)
    assume a: "table m = map EntryBuf es \<and> (\<forall>e\<in>set es. fits_call e)
      \<and> length ukey + 8 < 2 ^ 32 \<and> sq < 2 ^ 56
      \<and> find (at_or_after (user_comparator (comparator m)) ukey sq) es
           = Some (sd, kTypeDeletion, kd, vd)
      \<and> user_comparator (comparator m) kd ukey = 0"
    then have "Get (NewLookupKey ukey sq) val s m =
       Some (case find (at_or_after (user_comparator (comparator m)) ukey sq) es of
               None \<Rightarrow> (False, val, s)
             | Some (s', type, key, v) \<Rightarrow>
                 if user_comparator (comparator m) key ukey = 0 then
                   (case type of
                      kTypeValue \<Rightarrow> (True, v, s)
                    | kTypeDeletion \<Rightarrow> (True, val, NotFound))
                 else (False, val, s))"
      by (intro Get_entries) simp_all
    with a show "Get (NewLookupKey ukey sq) val s m = Some (True, val, NotFound)"
      by simp
  qed
  show ?thesis
    using p1 p2 by (rule conjI)
qed

lemma deletion_entries:
  "[[9, 107, 0, 2, 0, 0, 0, 0, 0, 0, 0], [9, 107, 1, 1, 0, 0, 0, 0, 0, 0, 1, 97]] =
     map EntryBuf [(2, kTypeDeletion, [107], []), (1, kTypeValue, [107], [97])]"
  by (simp add: EntryBuf_def Add_buf_def Let_def EncodeVarint32_def EncodeFixed64_def)

theorem Get_frame_witness:
  "Get (NewLookupKey [107] 5) [1, 2, 3] OK
     \<lparr> comparator = InternalKeyComparator BytewiseCompare, refs = 0,
       arena = \<lparr> memory_usage = 23 \<rparr>,
       table = [[9, 107, 0, 2, 0, 0, 0, 0, 0, 0, 0],
                [9, 107, 1, 1, 0, 0, 0, 0, 0, 0, 1, 97]] \<rparr>
   = Some (True, [1, 2, 3], NotFound)"
proof -
  let ?m = "\<lparr> comparator = InternalKeyComparator BytewiseCompare, refs = 0,
       arena = \<lparr> memory_usage = 23 \<rparr>,
       table = [[9, 107, 0, 2, 0, 0, 0, 0, 0, 0, 0],
                [9, 107, 1, 1, 0, 0, 0, 0, 0, 0, 1, 97]] \<rparr>"
  let ?es = "[(2, kTypeDeletion, [107], []), (1, kTypeValue, [107], [97])] :: AddCall list"
  have h1: "table ?m = map EntryBuf ?es"
    using deletion_entries by simp
  have h2: "\<forall>e\<in>set ?es. fits_call e"
    by (simp add: fits_call_def)
  have h3: "length [107 :: byte] + 8 < (2::nat) ^ 32" by simp
  have h4: "(5 :: uint64) < 2 ^ 56" by simp
  have f: "find (at_or_after (user_comparator (comparator ?m)) [107] 5) ?es
      = Some (2, kTypeDeletion, [107], [])"
    by (simp add: at_or_after_def word_le_nat_alt)
  have c: "user_comparator (comparator ?m) [107] [107] = 0"
    by simp
  note t = Get_frame [of "NewLookupKey [107] 5" "[1, 2, 3]" OK ?m True "[1, 2, 3]" NotFound
      ?es "[107]" 5 2 "[107]" "[]"]
  from t have "table ?m = map EntryBuf ?es \<and> (\<forall>e\<in>set ?es. fits_call e)
      \<and> length [107 :: byte] + 8 < (2::nat) ^ 32 \<and> (5 :: uint64) < 2 ^ 56
      \<and> find (at_or_after (user_comparator (comparator ?m)) [107] 5) ?es
           = Some (2, kTypeDeletion, [107], [])
      \<and> user_comparator (comparator ?m) [107] [107] = 0 \<longrightarrow>
        Get (NewLookupKey [107] 5) [1, 2, 3] OK ?m = Some (True, [1, 2, 3], NotFound)"
    by (rule conjunct2)
  then show ?thesis
    using h1 h2 h3 h4 f c by blast
qed

lemma DecodeFixed64_total: "8 \<le> length xs \<Longrightarrow> \<exists>v. DecodeFixed64 xs = Some v"
  by (cases xs rule: DecodeFixed64.cases) auto

lemma Compare_total:
  assumes "8 \<le> length a" and "8 \<le> length b"
  shows "\<exists>r. Compare c a b = Some r"
proof -
  obtain va where va: "DecodeFixed64 (drop (length a - 8) a) = Some va"
    using DecodeFixed64_total [of "drop (length a - 8) a"] assms(1) by auto
  obtain vb where vb: "DecodeFixed64 (drop (length b - 8) b) = Some vb"
    using DecodeFixed64_total [of "drop (length b - 8) b"] assms(2) by auto
  show ?thesis
    using assms va vb by (simp add: Compare_def ExtractUserKey_def Let_def)
qed

lemma KeyComparator_EncodeKey:
  assumes "fits_call e" and "length k < 2 ^ 32"
  shows "KeyComparator c (EntryBuf e) (EncodeKey k) = Compare c (InternalKeyOf e) k"
proof -
  obtain s t ku v where e: "e = (s, t, ku, v)" by (cases e) auto
  have l: "length ku + 8 < 2 ^ 32"
    using assms(1) e by (simp add: fits_call_def)
  have "GetLengthPrefixedSlice (EncodeKey k) = Some (k, [])"
    using GetLengthPrefixedSlice_prefixed [OF assms(2), of "[]"] by (simp add: EncodeKey_def)
  then show ?thesis
    unfolding e
    by (simp add: KeyComparator_def EntryBuf_def InternalKeyOf_def
        GetLengthPrefixedSlice_Add_buf [OF l])
qed

lemma seek_example_reached:
  "AddAll [(1, kTypeValue, [97, 98], [120]),
           (2, kTypeValue, [97, 98, 99, 100, 101, 102, 103, 104, 105], [121])]
     (NewMemTable (InternalKeyComparator BytewiseCompare)) = Some seek_example"
  by (simp add: Add_def Add_buf_def Add_encoded_len_def Let_def NewMemTable_def
      VarintLength_small EncodeVarint32_def EncodeFixed64_def Arena_Allocate_def
      KeyComparator_def GetLengthPrefixedSlice_def GetVarint32Ptr_def Compare_def
      ExtractUserKey_def seek_example_def)

text \<open>C8, as stated, fails. On the table of "ab" at sequence 1 and "abcdefghi" at sequence
  2, \<^verbatim>\<open>Seek("abcdefghi")\<close> puts the cursor on position 0, the entry of "ab": not where a
  seek to the zero-tag target of that user key ends (past the last entry), and not on the
  newest version of "abcdefghi" (position 1).\<close>

theorem Seek_zero_tag_counterexample:
  "AddAll [(1, kTypeValue, [97, 98], [120]),
           (2, kTypeValue, [97, 98, 99, 100, 101, 102, 103, 104, 105], [121])]
     (NewMemTable (InternalKeyComparator BytewiseCompare)) = Some seek_example
   \<and> MemTableIterator_Seek seek_example [97, 98, 99, 100, 101, 102, 103, 104, 105]
     \<noteq> SkipList_Seek (KeyComparator (comparator seek_example)) (table seek_example)
        (EncodeKey (spec_seek_target [97, 98, 99, 100, 101, 102, 103, 104, 105]))
   \<and> MemTableIterator_Seek seek_example [97, 98, 99, 100, 101, 102, 103, 104, 105]
     \<noteq> Some (Some 1)
   \<and> MemTableIterator_Seek seek_example [97, 98, 99, 100, 101, 102, 103, 104, 105]
     = Some (Some 0)
   \<and> MemTableIterator_key seek_example (Some 0)
       = Some ([97, 98] @ EncodeFixed64 (push_bit 8 1 OR ValueType_code kTypeValue))
   \<and> SkipList_Seek (KeyComparator (comparator seek_example)) (table seek_example)
        (EncodeKey (spec_seek_target [97, 98, 99, 100, 101, 102, 103, 104, 105]))
       = Some None
   \<and> MemTableIterator_key seek_example (Some 1)
       = Some ([97, 98, 99, 100, 101, 102, 103, 104, 105]
               @ EncodeFixed64 (push_bit 8 2 OR ValueType_code kTypeValue))"
  using seek_example_reached
  by (simp add: MemTableIterator_Seek_def SkipList_Seek_def EncodeKey_def
      MemTableIterator_key_def SkipList_key_def spec_seek_target_def
      EncodeVarint32_def EncodeFixed64_def
      KeyComparator_def GetLengthPrefixedSlice_def GetVarint32Ptr_def Compare_def
      ExtractUserKey_def seek_example_def)


text \<open>C8, amended. \<^verbatim>\<open>Seek(k)\<close> takes an internal key (at least its eight tag bytes,
  shorter than \<open>2^32\<close>), prefixes its length and adds no tag; on a table of well-formed
  entries the cursor ends on the first entry whose internal key is greater than or equal
  to \<open>k\<close> under the internal key comparator, and is invalid when every entry is smaller.\<close>

theorem Seek_internal_key_target:
  assumes "table m = map EntryBuf es" and "\<forall>e\<in>set es. fits_call e"
    and "8 \<le> length k" and "length k < 2 ^ 32"
  shows "MemTableIterator_Seek m k =
           SkipList_Seek (KeyComparator (comparator m)) (table m)
             (EncodeVarint32 (of_nat (length k)) @ k)
         \<and> (\<exists>pos. MemTableIterator_Seek m k = Some pos \<and>
              (case pos of
                 None \<Rightarrow>
                   \<forall>e\<in>set es. \<exists>r. Compare (comparator m) (InternalKeyOf e) k = Some r \<and> r < 0
               | Some i \<Rightarrow>
                   i < length es
                   \<and> MemTableIterator_key m (Some i) = Some (InternalKeyOf (es ! i))
                   \<and> (\<exists>r. Compare (comparator m) (InternalKeyOf (es ! i)) k = Some r \<and> 0 \<le> r)
                   \<and> (\<forall>j<i. \<exists>r. Compare (comparator m) (InternalKeyOf (es ! j)) k = Some r
                                \<and> r < 0)))"
proof -
  let ?c = "comparator m"
  define f where "f = (\<lambda>e. the (Compare ?c (InternalKeyOf e) k))"
  have len: "8 \<le> length (InternalKeyOf e)" for e
    by (cases e) (simp add: InternalKeyOf_def)
  have cmp: "Compare ?c (InternalKeyOf e) k = Some (f e)" for e
    using Compare_total [OF len [of e] assms(3), of ?c] by (auto simp add: f_def)
  have kc: "\<forall>x\<in>set es. KeyComparator ?c (EntryBuf x) (EncodeKey k) = Some (f x)"
    using assms(2,4) KeyComparator_EncodeKey cmp by simp
  note fge = FindGreaterOrEqual_map [where xs = es and g = EntryBuf and f = f
      and cmp = "KeyComparator ?c" and k = "EncodeKey k", OF kc]
  have seek: "MemTableIterator_Seek m k =
      Some (if \<forall>x\<in>set es. f x < 0 then None
            else Some (length (takeWhile (\<lambda>x. f x < 0) es)))"
    unfolding MemTableIterator_Seek_def SkipList_Seek_def assms(1) fge ..
  have first: "MemTableIterator_Seek m k =
           SkipList_Seek (KeyComparator (comparator m)) (table m)
             (EncodeVarint32 (of_nat (length k)) @ k)"
    by (simp add: MemTableIterator_Seek_def EncodeKey_def)
  show ?thesis
  proof (cases "\<forall>x\<in>set es. f x < 0")
    case True
    have n: "MemTableIterator_Seek m k = Some None"
      using True seek by simp
    have body: "\<forall>e\<in>set es. \<exists>r. Compare ?c (InternalKeyOf e) k = Some r \<and> r < 0"
      using True cmp by simp
    show ?thesis
      apply (rule conjI [OF first])
      apply (rule exI [of _ None])
      apply (rule conjI [OF n])
      apply (simp only: option.case)
      apply (rule body)
      done
  next
    case False
    let ?i = "length (takeWhile (\<lambda>x. f x < 0) es)"
    have s: "MemTableIterator_Seek m k = Some (Some ?i)"
      using False seek by simp
    have i: "?i < length es"
      using False length_takeWhile_less [of es "\<lambda>x. \<not> f x < 0"] by simp
    have ge: "0 \<le> f (es ! ?i)"
      using nth_length_takeWhile [OF i] by simp
    have lt: "f (es ! j) < 0" if "j < ?i" for j
    proof -
      have "takeWhile (\<lambda>x. f x < 0) es ! j \<in> set (takeWhile (\<lambda>x. f x < 0) es)"
        using that by (rule nth_mem)
      then have "f (takeWhile (\<lambda>x. f x < 0) es ! j) < 0"
        by (rule set_takeWhileD [THEN conjunct2])
      then show ?thesis
        using takeWhile_nth [OF that] by simp
    qed
    obtain s t ku v where e: "es ! ?i = (s, t, ku, v)"
      by (cases "es ! ?i") auto
    have "fits_call (s, t, ku, v)"
      using assms(2) i e nth_mem by metis
    then have lk: "length ku + 8 < 2 ^ 32"
      by (simp add: fits_call_def)
    have key: "MemTableIterator_key m (Some ?i) = Some (InternalKeyOf (es ! ?i))"
      using i e GetLengthPrefixedSlice_Add_buf [OF lk, of s t v]
      by (simp add: MemTableIterator_key_def SkipList_key_def assms(1) EntryBuf_def
          InternalKeyOf_def)
    have body: "?i < length es
          \<and> MemTableIterator_key m (Some ?i) = Some (InternalKeyOf (es ! ?i))
          \<and> (\<exists>r. Compare ?c (InternalKeyOf (es ! ?i)) k = Some r \<and> 0 \<le> r)
          \<and> (\<forall>j<?i. \<exists>r. Compare ?c (InternalKeyOf (es ! j)) k = Some r \<and> r < 0)"
      using i key ge lt cmp by simp
    show ?thesis
      apply (rule conjI [OF first])
      apply (rule exI [of _ "Some ?i"])
      apply (rule conjI [OF s])
      apply (simp only: option.case)
      apply (rule body)
      done
  qed
qed

theorem Seek_internal_key_target_witness:
  "MemTableIterator_Seek seek_example
      ([97, 98, 99] @ EncodeFixed64 (push_bit 8 9 OR ValueType_code kTypeValue))
     = Some (Some 1)"
proof -
  let ?es = "[(1, kTypeValue, [97, 98], [120]),
              (2, kTypeValue, [97, 98, 99, 100, 101, 102, 103, 104, 105], [121])] :: AddCall list"
  let ?k = "[97, 98, 99] @ EncodeFixed64 (push_bit 8 9 OR ValueType_code kTypeValue)"
  have h1: "table seek_example = map EntryBuf ?es"
    by (simp add: seek_example_def EntryBuf_def Add_buf_def Let_def EncodeVarint32_def
        EncodeFixed64_def)
  have h2: "\<forall>e\<in>set ?es. fits_call e"
    by (simp add: fits_call_def)
  have h3: "8 \<le> length ?k" by simp
  have h4: "length ?k < 2 ^ 32" by simp
  have e: "MemTableIterator_Seek seek_example ?k = Some (Some 1)"
    by (simp add: MemTableIterator_Seek_def SkipList_Seek_def EncodeKey_def
      EncodeVarint32_def EncodeFixed64_def
      KeyComparator_def GetLengthPrefixedSlice_def GetVarint32Ptr_def Compare_def
      ExtractUserKey_def seek_example_def)
  show ?thesis
    using Seek_internal_key_target [OF h1 h2 h3 h4] e by simp
qed

section \<open>Iteration\<close>

lemma ForwardScan_from:
  "i < length (table m) \<Longrightarrow>
   ForwardScan m (Some i) =
     map (\<lambda>j. (MemTableIterator_key m (Some j), MemTableIterator_value m (Some j)))
       [i..<length (table m)]"
proof (induction "length (table m) - i" arbitrary: i)
  case 0
  then show ?case by simp
next
  case (Suc d)
  show ?case
  proof (cases "Suc i < length (table m)")
    case True
    then have "ForwardScan m (Some (Suc i)) =
        map (\<lambda>j. (MemTableIterator_key m (Some j), MemTableIterator_value m (Some j)))
          [Suc i..<length (table m)]"
      using Suc by simp
    then show ?thesis
      using True Suc.prems
      by (subst ForwardScan.simps)
        (simp add: MemTableIterator_Valid_def SkipList_Valid_def MemTableIterator_Next_def
          SkipList_Next_def upt_conv_Cons)
  next
    case False
    then have "length (table m) = Suc i" using Suc.prems by simp
    then show ?thesis
      by (subst ForwardScan.simps, subst ForwardScan.simps)
        (simp add: MemTableIterator_Valid_def SkipList_Valid_def MemTableIterator_Next_def
          SkipList_Next_def)
  qed
qed

lemma BackwardScan_from:
  "BackwardScan m (Some i) =
     map (\<lambda>j. (MemTableIterator_key m (Some j), MemTableIterator_value m (Some j)))
       (rev [0..<Suc i])"
proof (induction i)
  case 0
  show ?case
    by (subst BackwardScan.simps, subst BackwardScan.simps)
      (simp add: MemTableIterator_Valid_def SkipList_Valid_def MemTableIterator_Prev_def
        SkipList_Prev_def)
next
  case (Suc i)
  then show ?case
    by (subst BackwardScan.simps)
      (simp add: MemTableIterator_Valid_def SkipList_Valid_def MemTableIterator_Prev_def
        SkipList_Prev_def)
qed

text \<open>C9. A full forward traversal from \<^verbatim>\<open>SeekToFirst\<close> yields the reverse of a full
  backward traversal from \<^verbatim>\<open>SeekToLast\<close>, in every table state.\<close>

theorem iterator_restart_symmetry:
  "ForwardScan m (MemTableIterator_SeekToFirst m) =
     rev (BackwardScan m (MemTableIterator_SeekToLast m))"
proof (cases "table m = []")
  case True
  then show ?thesis
    by (subst ForwardScan.simps, subst BackwardScan.simps)
      (simp add: MemTableIterator_SeekToFirst_def MemTableIterator_SeekToLast_def
        SkipList_SeekToFirst_def SkipList_SeekToLast_def MemTableIterator_Valid_def
        SkipList_Valid_def)
next
  case False
  then have n: "0 < length (table m)" by simp
  then have s: "Suc (length (table m) - 1) = length (table m)" by simp
  show ?thesis
    using False ForwardScan_from [OF n] BackwardScan_from [of m "length (table m) - 1"]
    by (simp add: MemTableIterator_SeekToFirst_def MemTableIterator_SeekToLast_def
        SkipList_SeekToFirst_def SkipList_SeekToLast_def s rev_map del: upt_Suc)
qed

section \<open>Memory usage\<close>

lemma VarintLength_pos: "0 < VarintLength v"
  by (subst VarintLength.simps) simp

lemma Add_encoded_len_ge: "10 \<le> Add_encoded_len key val"
  using VarintLength_pos [of "length key + 8"] VarintLength_pos [of "length val"]
  by (simp add: Add_encoded_len_def Let_def)

lemma Add_usage:
  "Add s type key val m = Some m' \<Longrightarrow>
   ApproximateMemoryUsage m' = ApproximateMemoryUsage m + Add_encoded_len key val"
  using Add_Some(3) [of s type key val m m']
  by (simp add: ApproximateMemoryUsage_def Arena_MemoryUsage_def Arena_Allocate_def)

lemma AddAll_append:
  "AddAll (xs @ ys) m = (case AddAll xs m of None \<Rightarrow> None | Some m' \<Rightarrow> AddAll ys m')"
  by (induction xs arbitrary: m) (auto split: option.splits)

lemma AddAll_usage:
  "AddAll calls m = Some m' \<Longrightarrow>
   ApproximateMemoryUsage m \<le> ApproximateMemoryUsage m'
   \<and> (calls \<noteq> [] \<longrightarrow> ApproximateMemoryUsage m < ApproximateMemoryUsage m')"
proof (induction calls arbitrary: m)
  case Nil
  then show ?case by simp
next
  case (Cons c calls)
  obtain s type key val where c: "c = (s, type, key, val)"
    by (cases c) auto
  from Cons.prems c obtain m1 where m1: "Add s type key val m = Some m1"
    and rest: "AddAll calls m1 = Some m'"
    by (auto split: option.splits)
  have "ApproximateMemoryUsage m < ApproximateMemoryUsage m1"
    using Add_usage [OF m1] Add_encoded_len_ge [of key val] by simp
  then show ?case
    using Cons.IH [OF rest] by simp
qed

text \<open>C7. Across a sequence of \<^verbatim>\<open>Add\<close> calls that complete, observed at any point in
  between, \<^verbatim>\<open>ApproximateMemoryUsage\<close> never decreases, and it has grown strictly once at
  least one more \<^verbatim>\<open>Add\<close> has completed: every \<^verbatim>\<open>Add\<close> allocates at least ten bytes.\<close>

theorem memory_usage_monotonic:
  assumes "AddAll (before @ after) m = Some m''"
  shows "\<exists>m'. AddAll before m = Some m' \<and> AddAll after m' = Some m''
           \<and> ApproximateMemoryUsage m \<le> ApproximateMemoryUsage m'
           \<and> ApproximateMemoryUsage m' \<le> ApproximateMemoryUsage m''
           \<and> (after \<noteq> [] \<longrightarrow> ApproximateMemoryUsage m' < ApproximateMemoryUsage m'')"
proof -
  from assms obtain m' where a: "AddAll before m = Some m'" and b: "AddAll after m' = Some m''"
    by (auto simp add: AddAll_append split: option.splits)
  show ?thesis
    using a b AddAll_usage [OF a] AddAll_usage [OF b] by blast
qed

text \<open>The table of the spec's example: the key "k" written at sequence 1 with value "a"
  and at sequence 2 with value "b", under the bytewise comparator.\<close>

lemma example_table:
  "AddAll [(1, kTypeValue, [107], [97]), (2, kTypeValue, [107], [98])]
     (NewMemTable (InternalKeyComparator BytewiseCompare)) =
   Some \<lparr> comparator = InternalKeyComparator BytewiseCompare, refs = 0,
          arena = \<lparr> memory_usage = 24 \<rparr>,
          table = [[9, 107, 1, 2, 0, 0, 0, 0, 0, 0, 1, 98],
                   [9, 107, 1, 1, 0, 0, 0, 0, 0, 0, 1, 97]] \<rparr>"
  by (simp add: Add_def Add_buf_def Add_encoded_len_def Let_def NewMemTable_def
      VarintLength_small EncodeVarint32_def EncodeFixed64_def Arena_Allocate_def
      KeyComparator_def GetLengthPrefixedSlice_def GetVarint32Ptr_def Compare_def
      ExtractUserKey_def)

theorem memory_usage_monotonic_witness:
  "\<exists>m' m''. AddAll ([(1, kTypeValue, [107], [97])] @ [(2, kTypeValue, [107], [98])])
        (NewMemTable (InternalKeyComparator BytewiseCompare)) = Some m''
     \<and> AddAll [(1, kTypeValue, [107], [97])]
          (NewMemTable (InternalKeyComparator BytewiseCompare)) = Some m'
     \<and> ApproximateMemoryUsage (NewMemTable (InternalKeyComparator BytewiseCompare))
           \<le> ApproximateMemoryUsage m'
     \<and> ApproximateMemoryUsage m' < ApproximateMemoryUsage m''"
  using memory_usage_monotonic [of "[(1, kTypeValue, [107], [97])]"
      "[(2, kTypeValue, [107], [98])]" "NewMemTable (InternalKeyComparator BytewiseCompare)"]
    example_table
  by auto

section \<open>Reference counting\<close>

lemma Unref_pos:
  "0 < refs m \<Longrightarrow>
   Unref m = Some (if refs m - 1 \<le> 0 then Destroyed else Live (m\<lparr>refs := refs m - 1\<rparr>))"
  by (simp add: Unref_def DeleteMemTable_def Let_def)

lemma RunRefCalls_Destroyed: "RunRefCalls cs Destroyed = Some l \<Longrightarrow> cs = [] \<and> l = Destroyed"
  by (cases cs) auto

lemma RunRefCalls_last:
  "RunRefCalls cs (Live m) = Some Destroyed \<Longrightarrow> cs \<noteq> [] \<and> last cs = CallUnref"
proof (induction cs arbitrary: m)
  case Nil
  then show ?case by simp
next
  case (Cons c cs)
  show ?case
  proof (cases c)
    case CallRef
    with Cons show ?thesis
      by (cases cs) (auto split: option.splits)
  next
    case CallUnref
    with Cons.prems obtain l where l: "Unref m = Some l" "RunRefCalls cs l = Some Destroyed"
      by (auto split: option.splits)
    show ?thesis
    proof (cases l)
      case (Live m')
      with l Cons.IH [of m'] CallUnref show ?thesis by auto
    next
      case Destroyed
      with l RunRefCalls_Destroyed [of cs Destroyed] CallUnref show ?thesis by auto
    qed
  qed
qed

lemma RunRefCalls_count:
  "RunRefCalls cs (Live m) = Some l \<Longrightarrow>
   (case l of Live m' \<Rightarrow> refs m' | Destroyed \<Rightarrow> 0) =
     refs m + int (count_list cs CallRef) - int (count_list cs CallUnref)"
proof (induction cs arbitrary: m)
  case Nil
  then show ?case by auto
next
  case (Cons c cs)
  show ?case
  proof (cases c)
    case CallRef
    with Cons.prems obtain m' where m': "Ref m = Some m'" "RunRefCalls cs (Live m') = Some l"
      by (auto split: option.splits)
    then have "refs m' = refs m + 1"
      by (auto simp add: Ref_def split: if_splits)
    with Cons.IH [OF m'(2)] CallRef show ?thesis by simp
  next
    case CallUnref
    with Cons.prems obtain l' where l': "Unref m = Some l'" "RunRefCalls cs l' = Some l"
      by (auto split: option.splits)
    show ?thesis
    proof (cases l')
      case (Live m')
      with l' have "refs m' = refs m - 1"
        by (auto simp add: Unref_def DeleteMemTable_def Let_def split: if_splits)
      with Cons.IH [of m'] l' Live CallUnref show ?thesis by simp
    next
      case Destroyed
      with l' have "refs m = 1"
        by (auto simp add: Unref_def DeleteMemTable_def Let_def split: if_splits)
      with l' Destroyed RunRefCalls_Destroyed [of cs l] CallUnref show ?thesis by auto
    qed
  qed
qed

lemma RunRefCalls_append:
  "RunRefCalls (xs @ ys) l = (case RunRefCalls xs l of None \<Rightarrow> None | Some l' \<Rightarrow> RunRefCalls ys l')"
proof (induction xs l rule: RunRefCalls.induct)
  case (1 l)
  then show ?case by simp
next
  case (2 c cs)
  then show ?case by simp
next
  case (3 cs m)
  then show ?case by (simp split: option.splits)
next
  case (4 cs m)
  then show ?case by (simp split: option.splits)
qed

lemma RunRefCalls_Refs:
  "refs m + int n \<le> 2147483647 \<Longrightarrow>
   RunRefCalls (replicate n CallRef) (Live m) = Some (Live (m\<lparr>refs := refs m + int n\<rparr>))"
proof (induction n arbitrary: m)
  case 0
  then show ?case by simp
next
  case (Suc n)
  then show ?case
    using Suc.IH [of "m\<lparr>refs := refs m + 1\<rparr>"]
    by (simp add: Ref_def add.assoc)
qed

lemma RunRefCalls_Unrefs:
  "int n < refs m \<Longrightarrow>
   RunRefCalls (replicate n CallUnref) (Live m) = Some (Live (m\<lparr>refs := refs m - int n\<rparr>))"
proof (induction n arbitrary: m)
  case 0
  then show ?case by simp
next
  case (Suc n)
  then show ?case
    using Suc.IH [of "m\<lparr>refs := refs m - 1\<rparr>"]
    by (simp add: Unref_pos diff_diff_eq)
qed


text \<open>C6. A new table has reference count zero; \<^verbatim>\<open>Ref\<close> adds one (below the largest
  \<^verbatim>\<open>int\<close>); \<^verbatim>\<open>Unref\<close> on a positive count subtracts one and destroys the table exactly
  when the new count is zero or below; a run of calls ends destroyed only by a final
  \<^verbatim>\<open>Unref\<close> that balances the count; one \<^verbatim>\<open>Ref\<close> and its \<^verbatim>\<open>Unref\<close> destroy the table,
  and \<open>n\<close> extra \<^verbatim>\<open>Ref\<close>/\<^verbatim>\<open>Unref\<close> pairs leave it alive until the last \<^verbatim>\<open>Unref\<close>.\<close>

theorem reference_lifecycle:
  "refs (NewMemTable cmp) = 0
   \<and> (refs m < 2147483647 \<longrightarrow> (\<exists>m'. Ref m = Some m' \<and> refs m' = refs m + 1))
   \<and> (0 < refs m \<longrightarrow>
        Unref m = Some (if refs m - 1 \<le> 0 then Destroyed else Live (m\<lparr>refs := refs m - 1\<rparr>)))
   \<and> (RunRefCalls cs (Live m) = Some Destroyed \<longrightarrow>
        cs \<noteq> [] \<and> last cs = CallUnref
        \<and> refs m + int (count_list cs CallRef) - int (count_list cs CallUnref) = 0)
   \<and> (\<forall>m'. RunRefCalls cs (Live m) = Some (Live m') \<longrightarrow>
        refs m' = refs m + int (count_list cs CallRef) - int (count_list cs CallUnref))
   \<and> RunRefCalls [CallRef, CallUnref] (Live (NewMemTable cmp)) = Some Destroyed
   \<and> (int n < 2147483647 \<longrightarrow>
        RunRefCalls (CallRef # replicate n CallRef @ replicate n CallUnref)
            (Live (NewMemTable cmp)) = Some (Live ((NewMemTable cmp)\<lparr>refs := 1\<rparr>))
        \<and> RunRefCalls (CallRef # replicate n CallRef @ replicate n CallUnref @ [CallUnref])
            (Live (NewMemTable cmp)) = Some Destroyed)"
proof -
  have a: "refs (NewMemTable cmp) = 0"
    by (simp add: NewMemTable_def)
  have b: "refs m < 2147483647 \<longrightarrow> (\<exists>m'. Ref m = Some m' \<and> refs m' = refs m + 1)"
    by (simp add: Ref_def)
  have c: "0 < refs m \<longrightarrow>
        Unref m = Some (if refs m - 1 \<le> 0 then Destroyed else Live (m\<lparr>refs := refs m - 1\<rparr>))"
    using Unref_pos by blast
  have d: "RunRefCalls cs (Live m) = Some Destroyed \<longrightarrow>
        cs \<noteq> [] \<and> last cs = CallUnref
        \<and> refs m + int (count_list cs CallRef) - int (count_list cs CallUnref) = 0"
    using RunRefCalls_last [of cs m] RunRefCalls_count [of cs m Destroyed] by auto
  have e: "\<forall>m'. RunRefCalls cs (Live m) = Some (Live m') \<longrightarrow>
        refs m' = refs m + int (count_list cs CallRef) - int (count_list cs CallUnref)"
    using RunRefCalls_count [of cs m] by fastforce
  have f: "RunRefCalls [CallRef, CallUnref] (Live (NewMemTable cmp)) = Some Destroyed"
    by (simp add: Ref_def Unref_def DeleteMemTable_def NewMemTable_def)
  have g: "int n < 2147483647 \<longrightarrow>
        RunRefCalls (CallRef # replicate n CallRef @ replicate n CallUnref)
            (Live (NewMemTable cmp)) = Some (Live ((NewMemTable cmp)\<lparr>refs := 1\<rparr>))
        \<and> RunRefCalls (CallRef # replicate n CallRef @ replicate n CallUnref @ [CallUnref])
            (Live (NewMemTable cmp)) = Some Destroyed"
  proof (intro impI)
    assume n: "int n < 2147483647"
    let ?m1 = "(NewMemTable cmp)\<lparr>refs := 1\<rparr>"
    have r1: "Ref (NewMemTable cmp) = Some ?m1"
      by (simp add: Ref_def NewMemTable_def)
    have r2: "RunRefCalls (replicate n CallRef) (Live ?m1) =
        Some (Live (?m1\<lparr>refs := refs ?m1 + int n\<rparr>))"
      using n by (intro RunRefCalls_Refs) simp
    have r3: "RunRefCalls (replicate n CallUnref) (Live (?m1\<lparr>refs := refs ?m1 + int n\<rparr>)) =
        Some (Live ?m1)"
      using RunRefCalls_Unrefs [of n "?m1\<lparr>refs := refs ?m1 + int n\<rparr>"] by simp
    have r4: "RunRefCalls [CallUnref] (Live ?m1) = Some Destroyed"
      by (simp add: Unref_def DeleteMemTable_def)
    show "RunRefCalls (CallRef # replicate n CallRef @ replicate n CallUnref)
            (Live (NewMemTable cmp)) = Some (Live ((NewMemTable cmp)\<lparr>refs := 1\<rparr>))
        \<and> RunRefCalls (CallRef # replicate n CallRef @ replicate n CallUnref @ [CallUnref])
            (Live (NewMemTable cmp)) = Some Destroyed"
      using r1 r2 r3 r4 by (simp add: RunRefCalls_append)
  qed
  show ?thesis
    by (rule conjI [OF a conjI [OF b conjI [OF c conjI [OF d conjI [OF e conjI [OF f g]]]]]])
qed

theorem reference_lifecycle_witness:
  "refs ((NewMemTable (InternalKeyComparator BytewiseCompare))\<lparr>refs := 2\<rparr>) < 2147483647
   \<and> 0 < refs ((NewMemTable (InternalKeyComparator BytewiseCompare))\<lparr>refs := 2\<rparr>)
   \<and> Unref ((NewMemTable (InternalKeyComparator BytewiseCompare))\<lparr>refs := 2\<rparr>) =
       Some (Live ((NewMemTable (InternalKeyComparator BytewiseCompare))\<lparr>refs := 1\<rparr>))
   \<and> RunRefCalls [CallUnref, CallUnref]
        (Live ((NewMemTable (InternalKeyComparator BytewiseCompare))\<lparr>refs := 2\<rparr>))
       = Some Destroyed
   \<and> RunRefCalls [CallRef, CallRef, CallUnref, CallUnref]
            (Live (NewMemTable (InternalKeyComparator BytewiseCompare))) = Some Destroyed"
proof -
  let ?m0 = "NewMemTable (InternalKeyComparator BytewiseCompare)"
  note t = reference_lifecycle [of "InternalKeyComparator BytewiseCompare"
      "?m0\<lparr>refs := 2\<rparr>" "[CallUnref, CallUnref]" 1]
  have h0: "refs (?m0\<lparr>refs := 2\<rparr>) < 2147483647" by simp
  have h1: "0 < refs (?m0\<lparr>refs := 2\<rparr>)" by simp
  have h2: "int 1 < 2147483647" by simp
  from t have "0 < refs (?m0\<lparr>refs := 2\<rparr>) \<longrightarrow>
        Unref (?m0\<lparr>refs := 2\<rparr>) =
          Some (if refs (?m0\<lparr>refs := 2\<rparr>) - 1 \<le> 0 then Destroyed
                else Live (?m0\<lparr>refs := 2, refs := refs (?m0\<lparr>refs := 2\<rparr>) - 1\<rparr>))"
    by (elim conjE)
  with h1 have u: "Unref (?m0\<lparr>refs := 2\<rparr>) = Some (Live (?m0\<lparr>refs := 1\<rparr>))"
    by simp
  have u1: "Unref (?m0\<lparr>refs := 1\<rparr>) = Some Destroyed"
    by (simp add: Unref_def DeleteMemTable_def)
  have d: "RunRefCalls [CallUnref, CallUnref] (Live (?m0\<lparr>refs := 2\<rparr>)) = Some Destroyed"
    by (simp add: u u1)
  from t have "int 1 < 2147483647 \<longrightarrow>
        RunRefCalls (CallRef # replicate 1 CallRef @ replicate 1 CallUnref) (Live ?m0)
          = Some (Live (?m0\<lparr>refs := 1\<rparr>))
        \<and> RunRefCalls (CallRef # replicate 1 CallRef @ replicate 1 CallUnref @ [CallUnref])
            (Live ?m0) = Some Destroyed"
    by (elim conjE)
  with h2 have "RunRefCalls (CallRef # replicate 1 CallRef @ replicate 1 CallUnref @ [CallUnref])
            (Live ?m0) = Some Destroyed"
    by blast
  moreover have "CallRef # replicate 1 CallRef @ replicate 1 CallUnref @ [CallUnref]
      = [CallRef, CallRef, CallUnref, CallUnref]"
    by simp
  ultimately have r: "RunRefCalls [CallRef, CallRef, CallUnref, CallUnref] (Live ?m0)
      = Some Destroyed"
    by (simp only:)
  show ?thesis
    using h0 h1 u d r by (intro conjI)
qed

section \<open>Order of the table and visibility of versions\<close>

lemma cmp_neg: "total_order_comparator c \<Longrightarrow> (c a b < 0) = (0 < c b a)"
  by (simp add: total_order_comparator_def)

lemma cmp_zero_sym: "total_order_comparator c \<Longrightarrow> c a b = 0 \<Longrightarrow> c b a = 0"
  using cmp_neg [of c a b] cmp_neg [of c b a] by linarith

lemma cmp_trans:
  "total_order_comparator c \<Longrightarrow> c a b \<le> 0 \<Longrightarrow> c b d \<le> 0 \<Longrightarrow> c a d \<le> 0"
  unfolding total_order_comparator_def by blast

lemma cmp_zero_left:
  assumes "total_order_comparator c" and "c a b = 0"
  shows "(c a d \<le> 0) = (c b d \<le> 0)" and "(c d a \<le> 0) = (c d b \<le> 0)"
proof -
  have ba: "c b a = 0" using assms by (rule cmp_zero_sym)
  show "(c a d \<le> 0) = (c b d \<le> 0)"
    using cmp_trans [OF assms(1), of a b d] cmp_trans [OF assms(1), of b a d] assms(2) ba
    by auto
  show "(c d a \<le> 0) = (c d b \<le> 0)"
    using cmp_trans [OF assms(1), of d a b] cmp_trans [OF assms(1), of d b a] assms(2) ba
    by auto
qed

lemma cmp_le_ge_zero:
  "total_order_comparator c \<Longrightarrow> c a b \<le> 0 \<Longrightarrow> c b a \<le> 0 \<Longrightarrow> c a b = 0"
  using cmp_neg [of c a b] cmp_neg [of c b a] by linarith

lemma EntryCompare_le_iff:
  "(EntryCompare ucmp (sa, ta, ka, va) (sb, tb, kb, vb) \<le> 0) =
     (ucmp ka kb < 0 \<or>
      (ucmp ka kb = 0 \<and>
        \<not> (push_bit 8 sa OR ValueType_code ta < push_bit 8 sb OR ValueType_code tb)))"
  by (auto simp add: EntryCompare_def Let_def)

lemma EntryCompare_less_iff:
  "(EntryCompare ucmp (sa, ta, ka, va) (sb, tb, kb, vb) < 0) =
     (ucmp ka kb < 0 \<or>
      (ucmp ka kb = 0 \<and>
        push_bit 8 sb OR ValueType_code tb < push_bit 8 sa OR ValueType_code ta))"
  by (auto simp add: EntryCompare_def Let_def)

lemma EntryCompare_total:
  assumes "total_order_comparator ucmp"
  shows "EntryCompare ucmp a b \<le> 0 \<or> EntryCompare ucmp b a \<le> 0"
proof -
  obtain sa ta ka va where a: "a = (sa, ta, ka, va)" by (cases a) auto
  obtain sb tb kb vb where b: "b = (sb, tb, kb, vb)" by (cases b) auto
  show ?thesis
    unfolding a b EntryCompare_le_iff
    using cmp_neg [OF assms, of ka kb] cmp_neg [OF assms, of kb ka]
      cmp_zero_sym [OF assms, of ka kb]
    by (cases "ucmp ka kb < 0"; cases "ucmp ka kb = 0") auto
qed

lemma EntryCompare_trans:
  assumes "total_order_comparator ucmp"
    and "EntryCompare ucmp a b \<le> 0" and "EntryCompare ucmp b d \<le> 0"
  shows "EntryCompare ucmp a d \<le> 0"
proof -
  obtain sa ta ka va where a: "a = (sa, ta, ka, va)" by (cases a) auto
  obtain sb tb kb vb where b: "b = (sb, tb, kb, vb)" by (cases b) auto
  obtain sd td kd vd where d: "d = (sd, td, kd, vd)" by (cases d) auto
  let ?ga = "push_bit 8 sa OR ValueType_code ta"
  let ?gb = "push_bit 8 sb OR ValueType_code tb"
  let ?gd = "push_bit 8 sd OR ValueType_code td"
  from assms(2) have ab: "ucmp ka kb \<le> 0" "ucmp ka kb = 0 \<longrightarrow> \<not> ?ga < ?gb"
    unfolding a b EntryCompare_le_iff by auto
  from assms(3) have bd: "ucmp kb kd \<le> 0" "ucmp kb kd = 0 \<longrightarrow> \<not> ?gb < ?gd"
    unfolding b d EntryCompare_le_iff by auto
  have ad: "ucmp ka kd \<le> 0"
    using cmp_trans [OF assms(1) ab(1) bd(1)] .
  have "\<not> ?ga < ?gd" if z: "ucmp ka kd = 0"
  proof -
    have da: "ucmp kd ka = 0" using assms(1) z by (rule cmp_zero_sym)
    have "ucmp kb ka \<le> 0"
      using cmp_trans [OF assms(1) bd(1), of ka] da by simp
    then have ab0: "ucmp ka kb = 0"
      using cmp_le_ge_zero [OF assms(1) ab(1)] by simp
    have "ucmp kd kb \<le> 0"
      using cmp_trans [OF assms(1) _ ab(1), of kd] da by simp
    then have bd0: "ucmp kb kd = 0"
      using cmp_le_ge_zero [OF assms(1) bd(1)] by simp
    show ?thesis
      using ab(2) bd(2) ab0 bd0 by auto
  qed
  then show ?thesis
    unfolding a d EntryCompare_le_iff using ad by auto
qed

lemma EntryCompare_not_less:
  assumes "total_order_comparator ucmp" and "\<not> EntryCompare ucmp a b < 0"
  shows "EntryCompare ucmp b a \<le> 0"
proof -
  obtain sa ta ka va where a: "a = (sa, ta, ka, va)" by (cases a) auto
  obtain sb tb kb vb where b: "b = (sb, tb, kb, vb)" by (cases b) auto
  show ?thesis
    using assms(2) cmp_neg [OF assms(1), of ka kb] cmp_neg [OF assms(1), of kb ka]
      cmp_zero_sym [OF assms(1), of ka kb]
    unfolding a b EntryCompare_le_iff EntryCompare_less_iff
    by (cases "ucmp ka kb < 0"; cases "ucmp ka kb = 0") auto
qed

lemma sorted_entries_insert:
  assumes "total_order_comparator ucmp"
    and "sorted_wrt (\<lambda>a b. EntryCompare ucmp a b \<le> 0) es"
  shows "sorted_wrt (\<lambda>a b. EntryCompare ucmp a b \<le> 0) (entries_insert ucmp e es)"
proof -
  let ?P = "\<lambda>x. EntryCompare ucmp x e < 0"
  let ?R = "\<lambda>a b. EntryCompare ucmp a b \<le> 0"
  have s: "sorted_wrt ?R (takeWhile ?P es @ dropWhile ?P es)"
    using assms(2) by simp
  note sa = s [unfolded sorted_wrt_append]
  have s1: "sorted_wrt ?R (takeWhile ?P es)" and s2: "sorted_wrt ?R (dropWhile ?P es)"
    and s3: "\<forall>x\<in>set (takeWhile ?P es). \<forall>y\<in>set (dropWhile ?P es). ?R x y"
    using sa by blast+
  have before: "\<forall>x\<in>set (takeWhile ?P es). ?R x e"
    using set_takeWhileD by fastforce
  have after: "\<forall>y\<in>set (dropWhile ?P es). ?R e y"
  proof (cases "dropWhile ?P es")
    case Nil
    show ?thesis unfolding Nil by simp
  next
    case (Cons d ds)
    then have "\<not> ?P d"
      using hd_dropWhile [of ?P es] by auto
    then have ed: "?R e d"
      using EntryCompare_not_less [OF assms(1)] by blast
    have "\<forall>y\<in>set ds. ?R d y"
      using s2 Cons by simp
    then have "\<forall>y\<in>set ds. ?R e y"
      using EntryCompare_trans [OF assms(1) ed] by blast
    then show ?thesis
      unfolding Cons using ed by simp
  qed
  show ?thesis
    unfolding entries_insert_def
    using s1 s2 s3 before after by (simp add: sorted_wrt_append)
qed

lemma mset_entries_insert: "mset (entries_insert ucmp e es) = add_mset e (mset es)"
proof -
  have "mset (takeWhile (\<lambda>x. EntryCompare ucmp x e < 0) es)
      + mset (dropWhile (\<lambda>x. EntryCompare ucmp x e < 0) es) = mset es"
    by (metis mset_append takeWhile_dropWhile_id)
  then show ?thesis
    by (simp add: entries_insert_def)
qed

lemma Add_entries:
  assumes "table m = map EntryBuf es" and "\<forall>e\<in>set es. fits_call e"
    and "fits_call (s, type, key, val)"
  shows "Add s type key val m =
     Some (m\<lparr>arena := Arena_Allocate (Add_encoded_len key val) (arena m),
             table := map EntryBuf
               (entries_insert (user_comparator (comparator m)) (s, type, key, val) es)\<rparr>)"
proof -
  let ?e = "(s, type, key, val)"
  let ?f = "\<lambda>x. EntryCompare (user_comparator (comparator m)) x ?e"
  have l: "length key + 8 < 2 ^ 32" "length val < 2 ^ 32"
    using assms(3) by (simp_all add: fits_call_def)
  have c: "\<forall>x\<in>set es. KeyComparator (comparator m) (EntryBuf x) (EntryBuf ?e) = Some (?f x)"
    using assms(2,3) KeyComparator_EntryBuf by blast
  note ins = SkipList_Insert_map [where xs = es and g = EntryBuf and f = ?f
      and cmp = "KeyComparator (comparator m)" and k = ?e, OF c]
  have b: "Add_buf s type key val = EntryBuf ?e"
    by (simp add: EntryBuf_def)
  have lb: "length (EntryBuf ?e) = Add_encoded_len key val"
    using length_Add_buf [OF l, of s type] by (simp add: EntryBuf_def)
  show ?thesis
    unfolding Add_def Let_def b assms(1) ins entries_insert_def
    by (simp add: lb)
qed

lemma set_entries_insert: "set (entries_insert ucmp e es) = insert e (set es)"
  using mset_entries_insert [of ucmp e es] by (metis set_mset_add_mset_insert set_mset_mset)

lemma AddAll_entries:
  assumes "table m = map EntryBuf es" and "\<forall>e\<in>set es. fits_call e"
    and "\<forall>c\<in>set calls. fits_call c"
  shows "\<exists>m'. AddAll calls m = Some m'
           \<and> table m' = map EntryBuf (fold (entries_insert (user_comparator (comparator m))) calls es)
           \<and> comparator m' = comparator m"
  using assms
proof (induction calls arbitrary: m es)
  case Nil
  then show ?case by simp
next
  case (Cons c calls)
  obtain s type key val where c: "c = (s, type, key, val)" by (cases c) auto
  let ?ucmp = "user_comparator (comparator m)"
  let ?m1 = "m\<lparr>arena := Arena_Allocate (Add_encoded_len key val) (arena m),
             table := map EntryBuf (entries_insert ?ucmp (s, type, key, val) es)\<rparr>"
  have fc: "fits_call (s, type, key, val)"
    using Cons.prems(3) c by simp
  have a: "Add s type key val m = Some ?m1"
    using Add_entries [OF Cons.prems(1,2) fc] .
  have t1: "table ?m1 = map EntryBuf (entries_insert ?ucmp c es)"
    by (simp add: c)
  have f1: "\<forall>e\<in>set (entries_insert ?ucmp c es). fits_call e"
    using Cons.prems(2) fc c by (simp add: set_entries_insert)
  have r: "\<forall>c\<in>set calls. fits_call c"
    using Cons.prems(3) by simp
  from Cons.IH [OF t1 f1 r] obtain m' where m': "AddAll calls ?m1 = Some m'"
    "table m' = map EntryBuf (fold (entries_insert ?ucmp) calls (entries_insert ?ucmp c es))"
    "comparator m' = comparator m"
    by auto
  show ?case
    using a m' by (simp add: c)
qed

lemma mset_fold_entries_insert:
  "mset (fold (entries_insert ucmp) calls es) = mset calls + mset es"
  by (induction calls arbitrary: es) (simp_all add: mset_entries_insert)

lemma sorted_fold_entries_insert:
  assumes "total_order_comparator ucmp"
  shows "sorted_wrt (\<lambda>a b. EntryCompare ucmp a b \<le> 0) es \<Longrightarrow>
         sorted_wrt (\<lambda>a b. EntryCompare ucmp a b \<le> 0) (fold (entries_insert ucmp) calls es)"
  by (induction calls arbitrary: es) (simp_all add: sorted_entries_insert [OF assms])

lemma newest_first:
  assumes tot: "total_order_comparator ucmp"
    and sorted: "sorted_wrt (\<lambda>a b. EntryCompare ucmp a b \<le> 0) es"
    and dist: "distinct (map fst es)"
    and fits: "\<forall>e\<in>set es. fits_call e"
    and c: "(sc, tc, kc, vc) \<in> set es" "ucmp kc ukey = 0" "sc \<le> sq"
    and newest: "\<forall>(s', t', k', v')\<in>set es. ucmp k' ukey = 0 \<and> s' \<le> sq \<longrightarrow> s' \<le> sc"
  shows "find (at_or_after ucmp ukey sq) es = Some (sc, tc, kc, vc)"
proof -
  let ?P = "at_or_after ucmp ukey sq"
  let ?i = "length (takeWhile (\<lambda>x. \<not> ?P x) es)"
  have Pc: "?P (sc, tc, kc, vc)"
    using c(2,3) by (simp add: at_or_after_def)
  then have ex: "\<not> (\<forall>x\<in>set es. \<not> ?P x)"
    using c(1) by blast
  have i: "?i < length es"
    using ex by (rule length_takeWhile_less)
  have Pf: "?P (es ! ?i)"
    using nth_length_takeWhile [OF i] by simp
  obtain j where j: "j < length es" "es ! j = (sc, tc, kc, vc)"
    using c(1) by (auto simp add: in_set_conv_nth)
  have notP: "\<not> ?P (es ! n)" if "n < ?i" for n
  proof -
    have "takeWhile (\<lambda>x. \<not> ?P x) es ! n \<in> set (takeWhile (\<lambda>x. \<not> ?P x) es)"
      using that by (rule nth_mem)
    then have "\<not> ?P (takeWhile (\<lambda>x. \<not> ?P x) es ! n)"
      by (rule set_takeWhileD [THEN conjunct2])
    then show ?thesis
      using takeWhile_nth [OF that] by simp
  qed
  have ij: "?i \<le> j"
    using notP [of j] Pc j(2) by (cases "j < ?i") auto
  have "?i = j"
  proof (rule ccontr)
    assume "?i \<noteq> j"
    then have lt: "?i < j" using ij by simp
    obtain sf tf kf vf where f: "es ! ?i = (sf, tf, kf, vf)"
      by (cases "es ! ?i") auto
    have R: "EntryCompare ucmp (sf, tf, kf, vf) (sc, tc, kc, vc) \<le> 0"
      using sorted_wrt_nth_less [OF sorted lt j(1)] f j(2) by simp
    then have fc_le: "ucmp kf kc \<le> 0"
      unfolding EntryCompare_le_iff by auto
    then have fu_le: "ucmp kf ukey \<le> 0"
      using cmp_zero_left(2) [OF tot c(2), of kf] by simp
    with Pf f have fu: "ucmp kf ukey = 0" and sf: "sf \<le> sq"
      by (auto simp add: at_or_after_def)
    have "(sf, tf, kf, vf) \<in> set es"
      using i f nth_mem by metis
    then have sfsc: "sf \<le> sc"
      using newest fu sf by auto
    have "ucmp ukey kf = 0"
      using tot fu by (rule cmp_zero_sym)
    then have "ucmp kc kf \<le> 0"
      using cmp_trans [OF tot, of kc ukey kf] c(2) by simp
    then have "ucmp kf kc = 0"
      using cmp_le_ge_zero [OF tot fc_le] by simp
    then have ntag: "\<not> (push_bit 8 sf OR ValueType_code tf < push_bit 8 sc OR ValueType_code tc)"
      using R unfolding EntryCompare_le_iff by auto
    have bf: "sf < 2 ^ 56" and bc: "sc < 2 ^ 56"
      using fits \<open>(sf, tf, kf, vf) \<in> set es\<close> c(1) by (auto simp add: fits_call_def)
    have "\<not> sf < sc"
      using ntag tag_less_iff [OF bf bc, of tf tc] by simp
    then have "sf = sc"
      using sfsc by simp
    then have "map fst es ! ?i = map fst es ! j"
      using f j i by simp
    moreover have "(map fst es ! ?i = map fst es ! j) = (?i = j)"
      using dist i j(1) by (intro nth_eq_iff_index_eq) simp_all
    ultimately have "?i = j"
      by blast
    then show False
      using lt by simp
  qed
  then show ?thesis
    using ex j(2) by (simp add: find_takeWhile)
qed

lemma no_visible_version:
  assumes "\<forall>(s', t', k', v')\<in>set es. \<not> (ucmp k' ukey = 0 \<and> s' \<le> sq)"
  shows "case find (at_or_after ucmp ukey sq) es of
           None \<Rightarrow> True
         | Some (s, type, key, v) \<Rightarrow> ucmp key ukey \<noteq> 0"
proof (cases "find (at_or_after ucmp ukey sq) es")
  case None
  then show ?thesis by simp
next
  case (Some e)
  obtain s type key v where e: "e = (s, type, key, v)" by (cases e) auto
  have "e \<in> set es" and "at_or_after ucmp ukey sq e"
    using Some by (auto simp add: find_Some_iff)
  then show ?thesis
    using assms Some e by (auto simp add: at_or_after_def)
qed

lemma BytewiseCompare_neg: "(BytewiseCompare a b < 0) = (0 < BytewiseCompare b a)"
  by (induction a b rule: BytewiseCompare.induct) auto

lemma BytewiseCompare_trans:
  "BytewiseCompare a b \<le> 0 \<Longrightarrow> BytewiseCompare b d \<le> 0 \<Longrightarrow> BytewiseCompare a d \<le> 0"
proof (induction a b arbitrary: d rule: BytewiseCompare.induct)
  case 1
  then show ?case by simp
next
  case (2 y ys)
  then show ?case by (cases d) auto
next
  case (3 x xs)
  then show ?case by simp
next
  case (4 x xs y ys)
  then show ?case
    by (cases d) (auto split: if_splits)
qed

lemma total_order_BytewiseCompare: "total_order_comparator BytewiseCompare"
  unfolding total_order_comparator_def
  using BytewiseCompare_neg BytewiseCompare_trans by blast

lemma entries_of_calls:
  assumes "total_order_comparator ucmp" and "\<forall>c\<in>set calls. fits_call c"
    and "distinct (map fst calls)"
  shows "\<exists>m es. AddAll calls (NewMemTable (InternalKeyComparator ucmp)) = Some m
           \<and> table m = map EntryBuf es
           \<and> comparator m = InternalKeyComparator ucmp
           \<and> mset es = mset calls
           \<and> (\<forall>e\<in>set es. fits_call e)
           \<and> distinct (map fst es)
           \<and> sorted_wrt (\<lambda>a b. EntryCompare ucmp a b \<le> 0) es"
proof -
  let ?m0 = "NewMemTable (InternalKeyComparator ucmp)"
  let ?es = "fold (entries_insert ucmp) calls []"
  have t0: "table ?m0 = map EntryBuf []" and f0: "\<forall>e\<in>set []. fits_call e"
    by (simp_all add: NewMemTable_def)
  have c0: "user_comparator (comparator ?m0) = ucmp" "comparator ?m0 = InternalKeyComparator ucmp"
    by (simp_all add: NewMemTable_def)
  from AddAll_entries [OF t0 f0 assms(2)] obtain m where m: "AddAll calls ?m0 = Some m"
    "table m = map EntryBuf ?es" "comparator m = InternalKeyComparator ucmp"
    unfolding c0 by auto
  have ms: "mset ?es = mset calls"
    by (simp add: mset_fold_entries_insert)
  then have se: "set ?es = set calls"
    by (rule mset_eq_setD)
  have "mset (map fst ?es) = mset (map fst calls)"
    using ms by (metis mset_map)
  then have d: "distinct (map fst ?es)"
    using assms(3) by (metis mset_eq_imp_distinct_iff)
  have s: "sorted_wrt (\<lambda>a b. EntryCompare ucmp a b \<le> 0) ?es"
    using sorted_fold_entries_insert [OF assms(1), of "[]" calls] by simp
  show ?thesis
    using m ms se d s assms(2) by blast
qed

text \<open>C2. After any \<^verbatim>\<open>Add\<close> calls with distinct sequence numbers under a total-order
  user comparator, \<^verbatim>\<open>Get\<close> at sequence \<open>sq\<close> observes the entry of the user key with the
  greatest sequence number not above \<open>sq\<close>: its value for type Value, NotFound for type
  Deletion; with no such entry it returns false. The witness is the spec's example:
  "k" written as "a" at 1 and "b" at 2 reads "b" at 2 and "a" at 1.\<close>

theorem newest_visible_version:
  assumes "total_order_comparator ucmp" and "\<forall>c\<in>set calls. fits_call c"
    and "distinct (map fst calls)" and "length ukey + 8 < 2 ^ 32" and "sq < 2 ^ 56"
  shows "\<exists>m. AddAll calls (NewMemTable (InternalKeyComparator ucmp)) = Some m
     \<and> (\<forall>s type key v.
          (s, type, key, v) \<in> set calls \<and> ucmp key ukey = 0 \<and> s \<le> sq
          \<and> (\<forall>(s', t', k', v')\<in>set calls. ucmp k' ukey = 0 \<and> s' \<le> sq \<longrightarrow> s' \<le> s) \<longrightarrow>
          Get (NewLookupKey ukey sq) val st m =
            Some (case type of
                    kTypeValue \<Rightarrow> (True, v, st)
                  | kTypeDeletion \<Rightarrow> (True, val, NotFound)))
     \<and> ((\<forall>(s', t', k', v')\<in>set calls. \<not> (ucmp k' ukey = 0 \<and> s' \<le> sq)) \<longrightarrow>
          Get (NewLookupKey ukey sq) val st m = Some (False, val, st))"
proof -
  from entries_of_calls [OF assms(1,2,3)] obtain m es where
    m: "AddAll calls (NewMemTable (InternalKeyComparator ucmp)) = Some m"
    and t: "table m = map EntryBuf es" and c: "comparator m = InternalKeyComparator ucmp"
    and ms: "mset es = mset calls" and fits: "\<forall>e\<in>set es. fits_call e"
    and dist: "distinct (map fst es)"
    and sorted: "sorted_wrt (\<lambda>a b. EntryCompare ucmp a b \<le> 0) es"
    by blast
  have se: "set es = set calls"
    using ms by (rule mset_eq_setD)
  have uc: "user_comparator (comparator m) = ucmp"
    by (simp add: c)
  note get = Get_entries [OF t fits assms(4,5), of val st, unfolded uc]
  have found: "\<forall>s type key v.
          (s, type, key, v) \<in> set calls \<and> ucmp key ukey = 0 \<and> s \<le> sq
          \<and> (\<forall>(s', t', k', v')\<in>set calls. ucmp k' ukey = 0 \<and> s' \<le> sq \<longrightarrow> s' \<le> s) \<longrightarrow>
          Get (NewLookupKey ukey sq) val st m =
            Some (case type of
                    kTypeValue \<Rightarrow> (True, v, st)
                  | kTypeDeletion \<Rightarrow> (True, val, NotFound))"
  proof (intro allI impI)
    fix s type key v
    assume a: "(s, type, key, v) \<in> set calls \<and> ucmp key ukey = 0 \<and> s \<le> sq
          \<and> (\<forall>(s', t', k', v')\<in>set calls. ucmp k' ukey = 0 \<and> s' \<le> sq \<longrightarrow> s' \<le> s)"
    then have a1: "(s, type, key, v) \<in> set es" and a2: "ucmp key ukey = 0" and a3: "s \<le> sq"
      and a4: "\<forall>(s', t', k', v')\<in>set es. ucmp k' ukey = 0 \<and> s' \<le> sq \<longrightarrow> s' \<le> s"
      unfolding se by blast+
    have "find (at_or_after ucmp ukey sq) es = Some (s, type, key, v)"
      using assms(1) sorted dist fits a1 a2 a3 a4 by (rule newest_first)
    then show "Get (NewLookupKey ukey sq) val st m =
            Some (case type of
                    kTypeValue \<Rightarrow> (True, v, st)
                  | kTypeDeletion \<Rightarrow> (True, val, NotFound))"
      unfolding get using a2 by simp
  qed
  have missing: "(\<forall>(s', t', k', v')\<in>set calls. \<not> (ucmp k' ukey = 0 \<and> s' \<le> sq)) \<longrightarrow>
          Get (NewLookupKey ukey sq) val st m = Some (False, val, st)"
  proof (rule impI)
    assume "\<forall>(s', t', k', v')\<in>set calls. \<not> (ucmp k' ukey = 0 \<and> s' \<le> sq)"
    then have "\<forall>(s', t', k', v')\<in>set es. \<not> (ucmp k' ukey = 0 \<and> s' \<le> sq)"
      unfolding se .
    then have n: "case find (at_or_after ucmp ukey sq) es of
           None \<Rightarrow> True
         | Some (s, type, key, v) \<Rightarrow> ucmp key ukey \<noteq> 0"
      by (rule no_visible_version)
    show "Get (NewLookupKey ukey sq) val st m = Some (False, val, st)"
    proof (cases "find (at_or_after ucmp ukey sq) es")
      case None
      then show ?thesis unfolding get by simp
    next
      case (Some e)
      obtain s type key v where e: "e = (s, type, key, v)" by (cases e) auto
      have "ucmp key ukey \<noteq> 0" using n Some e by simp
      then show ?thesis unfolding get Some e by simp
    qed
  qed
  show ?thesis
    by (rule exI [of _ m], rule conjI [OF m conjI [OF found missing]])
qed

theorem newest_visible_version_witness:
  "\<exists>m. AddAll [(1, kTypeValue, [107], [97]), (2, kTypeValue, [107], [98])]
          (NewMemTable (InternalKeyComparator BytewiseCompare)) = Some m
     \<and> Get (NewLookupKey [107] 2) [] OK m = Some (True, [98], OK)
     \<and> Get (NewLookupKey [107] 1) [] OK m = Some (True, [97], OK)"
proof -
  let ?calls = "[(1, kTypeValue, [107], [97]), (2, kTypeValue, [107], [98])] :: AddCall list"
  have h1: "total_order_comparator BytewiseCompare"
    by (rule total_order_BytewiseCompare)
  have h2: "\<forall>c\<in>set ?calls. fits_call c"
    by (simp add: fits_call_def)
  have h3: "distinct (map fst ?calls)"
    by simp
  have h4: "length [107 :: byte] + 8 < (2::nat) ^ 32"
    by simp
  have h5: "(2 :: uint64) < 2 ^ 56" and h6: "(1 :: uint64) < 2 ^ 56"
    by simp_all
  from newest_visible_version [OF h1 h2 h3 h4 h5, of "[]" OK]
  obtain m where m: "AddAll ?calls (NewMemTable (InternalKeyComparator BytewiseCompare)) = Some m"
    and f2: "\<And>s type key v.
          (s, type, key, v) \<in> set ?calls \<and> BytewiseCompare key [107] = 0 \<and> s \<le> 2
          \<and> (\<forall>(s', t', k', v')\<in>set ?calls. BytewiseCompare k' [107] = 0 \<and> s' \<le> 2 \<longrightarrow> s' \<le> s) \<Longrightarrow>
          Get (NewLookupKey [107] 2) [] OK m =
            Some (case type of
                    kTypeValue \<Rightarrow> (True, v, OK)
                  | kTypeDeletion \<Rightarrow> (True, [], NotFound))"
    by blast
  from newest_visible_version [OF h1 h2 h3 h4 h6, of "[]" OK] m
  have f1: "\<And>s type key v.
          (s, type, key, v) \<in> set ?calls \<and> BytewiseCompare key [107] = 0 \<and> s \<le> 1
          \<and> (\<forall>(s', t', k', v')\<in>set ?calls. BytewiseCompare k' [107] = 0 \<and> s' \<le> 1 \<longrightarrow> s' \<le> s) \<Longrightarrow>
          Get (NewLookupKey [107] 1) [] OK m =
            Some (case type of
                    kTypeValue \<Rightarrow> (True, v, OK)
                  | kTypeDeletion \<Rightarrow> (True, [], NotFound))"
    by auto
  have g2: "Get (NewLookupKey [107] 2) [] OK m = Some (True, [98], OK)"
    using f2 [of 2 kTypeValue "[107]" "[98]"] by (simp add: word_le_nat_alt)
  have g1: "Get (NewLookupKey [107] 1) [] OK m = Some (True, [97], OK)"
    using f1 [of 1 kTypeValue "[107]" "[97]"] by (simp add: word_le_nat_alt)
  show ?thesis
    using m g2 g1 by blast
qed

lemma iterator_entries:
  assumes "table m = map EntryBuf es" and "\<forall>e\<in>set es. fits_call e" and "j < length es"
  shows "MemTableIterator_key m (Some j) = Some (InternalKeyOf (es ! j))"
    and "MemTableIterator_value m (Some j) = Some (snd (snd (snd (es ! j))))"
proof -
  obtain s t ku v where e: "es ! j = (s, t, ku, v)"
    by (cases "es ! j") auto
  have "fits_call (s, t, ku, v)"
    using assms(2,3) e nth_mem by metis
  then have lk: "length ku + 8 < 2 ^ 32" and lv: "length v < 2 ^ 32"
    by (simp_all add: fits_call_def)
  show "MemTableIterator_key m (Some j) = Some (InternalKeyOf (es ! j))"
    using assms(3) e GetLengthPrefixedSlice_Add_buf [OF lk, of s t v]
    by (simp add: MemTableIterator_key_def SkipList_key_def assms(1) EntryBuf_def
        InternalKeyOf_def)
  show "MemTableIterator_value m (Some j) = Some (snd (snd (snd (es ! j))))"
    using assms(3) e GetLengthPrefixedSlice_Add_buf [OF lk, of s t v]
      GetLengthPrefixedSlice_value [OF lv]
    by (simp add: MemTableIterator_value_def SkipList_key_def assms(1) EntryBuf_def)
qed

lemma ForwardScan_entries:
  assumes "table m = map EntryBuf es" and "\<forall>e\<in>set es. fits_call e"
  shows "ForwardScan m (MemTableIterator_SeekToFirst m) =
     map (\<lambda>e. (Some (InternalKeyOf e), Some (snd (snd (snd e))))) es"
proof (cases "es = []")
  case True
  then show ?thesis
    using assms(1)
    by (subst ForwardScan.simps)
      (simp add: MemTableIterator_SeekToFirst_def SkipList_SeekToFirst_def
        MemTableIterator_Valid_def SkipList_Valid_def)
next
  case False
  then have n: "0 < length (table m)" and f: "MemTableIterator_SeekToFirst m = Some 0"
    using assms(1)
    by (simp_all add: MemTableIterator_SeekToFirst_def SkipList_SeekToFirst_def)
  have "map (\<lambda>j. (MemTableIterator_key m (Some j), MemTableIterator_value m (Some j)))
          [0..<length es] =
        map (\<lambda>j. (\<lambda>e. (Some (InternalKeyOf e), Some (snd (snd (snd e))))) (es ! j))
          [0..<length es]"
    using iterator_entries [OF assms] by simp
  also have "\<dots> = map (\<lambda>e. (Some (InternalKeyOf e), Some (snd (snd (snd e))))) es"
    by (rule nth_equalityI) simp_all
  finally show ?thesis
    using ForwardScan_from [OF n] f assms(1) by simp
qed

text \<open>C5. After any \<^verbatim>\<open>Add\<close> calls with distinct sequence numbers under a total-order
  user comparator, the forward traversal yields the added entries, each once, with
  internal keys in non-decreasing order of the internal key comparator: user keys
  ascending and, for equal user keys, sequence numbers strictly descending.\<close>

theorem forward_traversal_ordered:
  assumes "total_order_comparator ucmp" and "\<forall>c\<in>set calls. fits_call c"
    and "distinct (map fst calls)"
  shows "\<exists>m es. AddAll calls (NewMemTable (InternalKeyComparator ucmp)) = Some m
     \<and> mset es = mset calls
     \<and> ForwardScan m (MemTableIterator_SeekToFirst m) =
         map (\<lambda>e. (Some (InternalKeyOf e), Some (snd (snd (snd e))))) es
     \<and> sorted_wrt (\<lambda>a b. \<exists>r. Compare (InternalKeyComparator ucmp)
                              (InternalKeyOf a) (InternalKeyOf b) = Some r \<and> r \<le> 0) es
     \<and> sorted_wrt (\<lambda>a b. ucmp (fst (snd (snd a))) (fst (snd (snd b))) \<le> 0
                       \<and> (ucmp (fst (snd (snd a))) (fst (snd (snd b))) = 0 \<longrightarrow> fst b < fst a)) es"
proof -
  from entries_of_calls [OF assms(1,2,3)] obtain m es where
    m: "AddAll calls (NewMemTable (InternalKeyComparator ucmp)) = Some m"
    and t: "table m = map EntryBuf es" and c: "comparator m = InternalKeyComparator ucmp"
    and ms: "mset es = mset calls" and fits: "\<forall>e\<in>set es. fits_call e"
    and dist: "distinct (map fst es)"
    and sorted: "sorted_wrt (\<lambda>a b. EntryCompare ucmp a b \<le> 0) es"
    by blast
  have scan: "ForwardScan m (MemTableIterator_SeekToFirst m) =
         map (\<lambda>e. (Some (InternalKeyOf e), Some (snd (snd (snd e))))) es"
    using t fits by (rule ForwardScan_entries)
  have cmp: "Compare (InternalKeyComparator ucmp) (InternalKeyOf a) (InternalKeyOf b)
      = Some (EntryCompare ucmp a b)" for a b
    by (cases a; cases b) (simp add: InternalKeyOf_def Compare_internal EntryCompare_def Let_def)
  have s1: "sorted_wrt (\<lambda>a b. \<exists>r. Compare (InternalKeyComparator ucmp)
                              (InternalKeyOf a) (InternalKeyOf b) = Some r \<and> r \<le> 0) es"
    using sorted by (rule sorted_wrt_mono_rel [rotated]) (simp add: cmp)
  have s2: "sorted_wrt (\<lambda>a b. ucmp (fst (snd (snd a))) (fst (snd (snd b))) \<le> 0
                       \<and> (ucmp (fst (snd (snd a))) (fst (snd (snd b))) = 0 \<longrightarrow> fst b < fst a)) es"
    unfolding sorted_wrt_iff_nth_less
  proof (intro allI impI)
    fix i j
    assume ij: "i < j" and j: "j < length es"
    obtain sa ta ka va where a: "es ! i = (sa, ta, ka, va)" by (cases "es ! i") auto
    obtain sb tb kb vb where b: "es ! j = (sb, tb, kb, vb)" by (cases "es ! j") auto
    have "EntryCompare ucmp (sa, ta, ka, va) (sb, tb, kb, vb) \<le> 0"
      using sorted_wrt_nth_less [OF sorted ij j] a b by simp
    then have le: "ucmp ka kb \<le> 0"
      and tag: "ucmp ka kb = 0 \<longrightarrow>
        \<not> (push_bit 8 sa OR ValueType_code ta < push_bit 8 sb OR ValueType_code tb)"
      unfolding EntryCompare_le_iff by auto
    have ma: "(sa, ta, ka, va) \<in> set es" and mb: "(sb, tb, kb, vb) \<in> set es"
      using ij j a b nth_mem [of i es] nth_mem [of j es] by auto
    have ba: "sa < 2 ^ 56" and bb: "sb < 2 ^ 56"
      using fits ma mb by (auto simp add: fits_call_def)
    have "(map fst es ! i = map fst es ! j) = (i = j)"
      using dist ij j by (intro nth_eq_iff_index_eq) simp_all
    then have ne: "sa \<noteq> sb"
      using ij j a b by simp
    have "sb < sa" if "ucmp ka kb = 0"
      using that tag tag_less_iff [OF ba bb, of ta tb] ne by auto
    then show "ucmp (fst (snd (snd (es ! i)))) (fst (snd (snd (es ! j)))) \<le> 0
        \<and> (ucmp (fst (snd (snd (es ! i)))) (fst (snd (snd (es ! j)))) = 0
             \<longrightarrow> fst (es ! j) < fst (es ! i))"
      using le a b by simp
  qed
  show ?thesis
    by (rule exI [of _ m], rule exI [of _ es],
        rule conjI [OF m conjI [OF ms conjI [OF scan conjI [OF s1 s2]]]])
qed

theorem forward_traversal_ordered_witness:
  "\<exists>m es. AddAll [(1, kTypeValue, [107], [97]), (2, kTypeValue, [107], [98]),
                  (3, kTypeDeletion, [5], [])]
             (NewMemTable (InternalKeyComparator BytewiseCompare)) = Some m
     \<and> mset es = mset [(1, kTypeValue, [107], [97]), (2, kTypeValue, [107], [98]),
                  (3, kTypeDeletion, [5], [])]
     \<and> ForwardScan m (MemTableIterator_SeekToFirst m) =
          map (\<lambda>e. (Some (InternalKeyOf e), Some (snd (snd (snd e))))) es
     \<and> sorted_wrt (\<lambda>a b. \<exists>r. Compare (InternalKeyComparator BytewiseCompare)
                              (InternalKeyOf a) (InternalKeyOf b) = Some r \<and> r \<le> 0) es"
proof -
  let ?calls = "[(1, kTypeValue, [107], [97]), (2, kTypeValue, [107], [98]),
                 (3, kTypeDeletion, [5], [])] :: AddCall list"
  have h1: "total_order_comparator BytewiseCompare"
    by (rule total_order_BytewiseCompare)
  have h2: "\<forall>c\<in>set ?calls. fits_call c"
    by (simp add: fits_call_def)
  have h3: "distinct (map fst ?calls)"
    by simp
  from forward_traversal_ordered [OF h1 h2 h3] show ?thesis
    by blast
qed

end
